theory Spec2Isabelle
  imports Main "HOL-Library.Word"
begin

unbundle bit_operations_syntax

section \<open>BER Writer and Reader: the data model\<close>

text \<open>
  The Writer and the Reader work on node Buffers, arrays of unsigned octets. An octet is
  an \<open>8 word\<close>; storing a number \<open>v\<close> into a Buffer keeps \<open>v\<close> modulo 256, which is
  \<open>of_int v\<close>. Offsets, sizes and counts are natural numbers; the numbers a caller passes
  in (tags, integers to encode, lengths) are mathematical integers. Where the source
  subtracts two offsets the subtraction is written on \<open>int\<close>, as the host computes it.

  Two error kinds can leave the code: the malformed-encoding kind \<open>InvalidAsn1Error\<close>
  (from the module \<open>./errors\<close>) and the plain \<open>Error\<close> that \<open>writeOID\<close> throws for a
  string outside the OID grammar. The \<open>TypeError\<close> guards of the Writer test the host
  type of an argument; the arguments of the model are typed, so those guards never fire.
\<close>

type_synonym byte = "8 word"

datatype error = InvalidAsn1Error | Error

text \<open>\<open>Buffer.alloc(n)\<close>: \<open>n\<close> zero octets.\<close>

definition alloc :: "nat \<Rightarrow> byte list" where
  "alloc n = replicate n 0"

text \<open>
  \<open>source.copy(target, targetStart, sourceStart, sourceEnd)\<close> of the host: nothing is
  copied when \<open>targetStart\<close> is outside the target or the source range is empty; otherwise
  the number of octets copied is the source range cut down to what the target and the
  source hold, and the copy behaves like \<open>memmove\<close> (the octets are read before any is
  written, so the source and the target may be the same Buffer). The result is the new
  content of the target.
\<close>

definition buffer_copy :: "byte list \<Rightarrow> byte list \<Rightarrow> nat \<Rightarrow> nat \<Rightarrow> nat \<Rightarrow> byte list" where
  "buffer_copy source target targetStart sourceStart sourceEnd =
     (if targetStart \<ge> length target \<or> sourceStart \<ge> sourceEnd then target
      else
        let nb = min (min (sourceEnd - sourceStart) (length target - targetStart))
                     (length source - sourceStart);
            chunk = take nb (drop sourceStart source)
        in take targetStart target @ chunk @ drop (targetStart + length chunk) target)"

text \<open>\<open>buf[i]\<close> for an index that may lie outside the Buffer, under the mask \<open>& 0xff\<close>:
  the host reads \<open>undefined\<close> there, and \<open>undefined & 0xff\<close> is 0.\<close>

definition byte_at :: "byte list \<Rightarrow> nat \<Rightarrow> byte" where
  "byte_at buf i = (if i < length buf then buf ! i else 0)"

section \<open>The Writer\<close>

text \<open>
  The fields of the class: the Buffer, its allocated size, the write offset, the growth
  factor and the stack \<open>_seq\<close> of pending sequence offsets. \<open>push\<close> and \<open>pop\<close> of the
  source work at the end of the array; here the top of the stack is the head of the list.
\<close>

record writer =
  wbuf :: "byte list"
  wsize :: nat
  woffset :: nat
  wgrowthFactor :: nat
  wseq :: "nat list"

definition Writer :: "nat \<Rightarrow> nat \<Rightarrow> writer" where
  "Writer sz growthFactor =
     \<lparr>wbuf = alloc sz, wsize = sz, woffset = 0, wgrowthFactor = growthFactor, wseq = []\<rparr>"

text \<open>The \<open>buffer\<close> accessor. \<open>subarray(0, offset)\<close> stops at the end of the Buffer, as
  \<open>take\<close> does.\<close>

definition buffer :: "writer \<Rightarrow> error + byte list" where
  "buffer w = (if length (wseq w) \<noteq> 0 then Inl InvalidAsn1Error
               else Inr (take (woffset w) (wbuf w)))"

text \<open>\<open>_ensure(len)\<close>.\<close>

definition ensure :: "nat \<Rightarrow> writer \<Rightarrow> writer" where
  "ensure len w =
     (if int (wsize w) - int (woffset w) < int len then
        let sz = wsize w * wgrowthFactor w;
            sz = (if int sz - int (woffset w) < int len then sz + len else sz);
            buf = alloc sz
        in w\<lparr>wbuf := buffer_copy (wbuf w) buf 0 0 (woffset w), wsize := sz\<rparr>
      else w)"

text \<open>The statement \<open>this._buf[this._offset++] = v\<close>. A store outside the Buffer is
  dropped by the host, as \<open>list_update\<close> drops it.\<close>

definition put :: "int \<Rightarrow> writer \<Rightarrow> writer" where
  "put v w = w\<lparr>wbuf := (wbuf w)[woffset w := of_int v], woffset := woffset w + 1\<rparr>"

fun put_all :: "int list \<Rightarrow> writer \<Rightarrow> writer" where
  "put_all [] w = w"
| "put_all (v # vs) w = put_all vs (put v w)"

definition writeByte :: "int \<Rightarrow> writer \<Rightarrow> writer" where
  "writeByte b w = put b (ensure 1 w)"

text \<open>
  The first loop of \<open>writeInt\<close>: the octets are pushed least significant first.
  \<open>i & 0xff\<close> is the low octet of \<open>i\<close> and \<open>Math.floor(i / 0x100)\<close> is \<open>i div 256\<close>
  (division by a power of two is exact on the host's numbers).
\<close>

function int_bytes :: "int \<Rightarrow> int list" where
  "int_bytes i =
     (if i < - 0x80 \<or> i \<ge> 0x80 then (i AND 0xff) # int_bytes (i div 0x100)
      else [i AND 0xff])"
  by pat_completeness auto
termination
  by (relation "measure (\<lambda>i. nat \<bar>i\<bar>)") auto

declare int_bytes.simps [simp del]

text \<open>\<open>writeInt(i, tag)\<close>: the second loop pops the octets, so they are stored most
  significant first.\<close>

definition writeInt :: "int \<Rightarrow> int \<Rightarrow> writer \<Rightarrow> writer" where
  "writeInt i tag w =
     (let bytes = int_bytes i;
          w = ensure (2 + length bytes) w;
          w = put tag w;
          w = put (int (length bytes)) w
      in put_all (rev bytes) w)"

definition ASN1_Null :: int where
  \<comment> \<open>Modelled from the spec: the tag registry \<open>./types\<close> is not among the sources; the
      values are those of the ASN.1 universal tag assignment.\<close>
  "ASN1_Null = 5"

definition ASN1_OctetString :: int where
  \<comment> \<open>Modelled from the spec: see \<open>ASN1_Null\<close>.\<close>
  "ASN1_OctetString = 4"

definition writeNull :: "writer \<Rightarrow> writer" where
  "writeNull w = writeByte 0x00 (writeByte ASN1_Null w)"

definition writeEnumeration :: "int \<Rightarrow> int \<Rightarrow> writer \<Rightarrow> writer" where
  "writeEnumeration i tag w = writeInt i tag w"

definition writeBoolean :: "bool \<Rightarrow> int \<Rightarrow> writer \<Rightarrow> writer" where
  "writeBoolean b tag w =
     (let w = ensure 3 w;
          w = put tag w;
          w = put 0x01 w
      in put (if b then 0xff else 0x00) w)"

text \<open>
  \<open>writeLength(len)\<close>. An operation that can throw returns the error, if any, with the
  state the Writer is left in. \<open>len >> 8\<close> is \<open>drop_bit 8 len\<close> in the branches that use
  it: there \<open>0xff < len \<le> 0xffffff\<close>.
\<close>

definition writeLength :: "int \<Rightarrow> writer \<Rightarrow> error option \<times> writer" where
  "writeLength len w =
     (let w = ensure 4 w in
      if len \<le> 0x7f then (None, put len w)
      else if len \<le> 0xff then (None, put len (put 0x81 w))
      else if len \<le> 0xffff then (None, put len (put (drop_bit 8 len) (put 0x82 w)))
      else if len \<le> 0xffffff then
        (None, put len (put (drop_bit 8 len) (put (drop_bit 16 len) (put 0x83 w))))
      else (Some InvalidAsn1Error, w))"

text \<open>\<open>writeString(s, tag)\<close>: the string is given by its UTF-8 octets, which is what
  \<open>Buffer.byteLength\<close> counts and \<open>Buffer.write\<close> stores.\<close>

definition writeString :: "byte list \<Rightarrow> int \<Rightarrow> writer \<Rightarrow> error option \<times> writer" where
  "writeString s tag w =
     (let len = length s;
          w = writeByte tag w
      in case writeLength (int len) w of
           (Some e, w) \<Rightarrow> (Some e, w)
         | (None, w) \<Rightarrow>
             if len \<noteq> 0 then
               let w = ensure len w
               in (None, w\<lparr>wbuf := buffer_copy s (wbuf w) (woffset w) 0 len,
                           woffset := woffset w + len\<rparr>)
             else (None, w))"

text \<open>\<open>writeBuffer(buf, tag)\<close>: \<open>tag\<close> is \<open>None\<close> when the caller passes no number.\<close>

definition writeBuffer :: "byte list \<Rightarrow> int option \<Rightarrow> writer \<Rightarrow> error option \<times> writer" where
  "writeBuffer buf tag w =
     (case (case tag of
              Some t \<Rightarrow> writeLength (int (length buf)) (writeByte t w)
            | None \<Rightarrow> (None, w)) of
        (Some e, w) \<Rightarrow> (Some e, w)
      | (None, w) \<Rightarrow>
          if length buf > 0 then
            let w = ensure (length buf) w
            in (None, w\<lparr>wbuf := buffer_copy buf (wbuf w) (woffset w) 0 (length buf),
                        woffset := woffset w + length buf\<rparr>)
          else (None, w))"

fun writeStringArray :: "byte list list \<Rightarrow> int \<Rightarrow> writer \<Rightarrow> error option \<times> writer" where
  "writeStringArray [] tag w = (None, w)"
| "writeStringArray (s # strings) tag w =
     (case writeString s tag w of
        (Some e, w) \<Rightarrow> (Some e, w)
      | (None, w) \<Rightarrow> writeStringArray strings tag w)"


subsection \<open>Object identifiers\<close>

text \<open>\<open>s.split('.')\<close>: the pieces between the dots; a string without a dot is one piece.\<close>

fun split_dot :: "string \<Rightarrow> string list" where
  "split_dot [] = [[]]"
| "split_dot (c # cs) =
     (if c = CHR ''.'' then [] # split_dot cs
      else case split_dot cs of [] \<Rightarrow> [[c]] | p # ps \<Rightarrow> (c # p) # ps)"

definition is_digit :: "char \<Rightarrow> bool" where
  "is_digit c = (c \<in> set ''0123456789'')"

text \<open>The test \<open>/^([0-9]+\.){0,}[0-9]+$/\<close>: the string is one or more non-empty groups of
  decimal digits, separated by single dots.\<close>

definition oid_regex :: "string \<Rightarrow> bool" where
  "oid_regex s = list_all (\<lambda>p. p \<noteq> [] \<and> list_all is_digit p) (split_dot s)"

definition digit_val :: "char \<Rightarrow> nat" where
  "digit_val c = of_char c - of_char CHR ''0''"

text \<open>\<open>parseInt(p, 10)\<close> on a group of decimal digits. The value is exact here; the host
  rounds it to a double from \<open>2^53\<close> on.\<close>

definition parseInt :: "string \<Rightarrow> nat" where
  "parseInt p = foldl (\<lambda>n c. n * 10 + digit_val c) 0 p"

text \<open>\<open>x >>> k\<close>: the host takes \<open>x\<close> modulo \<open>2^32\<close> first.\<close>

definition ushr :: "nat \<Rightarrow> nat \<Rightarrow> nat" where
  "ushr x k = drop_bit k (take_bit 32 x)"

text \<open>The inner function \<open>encodeOctet\<close>, as the list of the numbers it pushes.\<close>

definition encodeOctet :: "nat \<Rightarrow> nat list" where
  "encodeOctet octet =
     (if octet < 128 then [octet]
      else if octet < 16384 then
        [ushr octet 7 OR 0x80, octet AND 0x7F]
      else if octet < 2097152 then
        [ushr octet 14 OR 0x80, (ushr octet 7 OR 0x80) AND 0xFF, octet AND 0x7F]
      else if octet < 268435456 then
        [ushr octet 21 OR 0x80, (ushr octet 14 OR 0x80) AND 0xFF,
         (ushr octet 7 OR 0x80) AND 0xFF, octet AND 0x7F]
      else
        [(ushr octet 28 OR 0x80) AND 0xFF, (ushr octet 21 OR 0x80) AND 0xFF,
         (ushr octet 14 OR 0x80) AND 0xFF, (ushr octet 7 OR 0x80) AND 0xFF, octet AND 0x7F])"

text \<open>
  \<open>writeOID(s, tag)\<close>. With a single arc \<open>tmp[1]\<close> is \<open>undefined\<close> and the first number
  pushed is \<open>NaN\<close>; the only use of that number is the store into the Buffer, which keeps
  0 for \<open>NaN\<close>, so the model pushes 0.
\<close>

definition writeOID :: "string \<Rightarrow> int \<Rightarrow> writer \<Rightarrow> error option \<times> writer" where
  "writeOID s tag w =
     (if \<not> oid_regex s then (Some Error, w)
      else
        let tmp = split_dot s;
            first = (case tmp of
                       a # b # _ \<Rightarrow> int (parseInt a * 40 + parseInt b)
                     | _ \<Rightarrow> 0);
            bytes = first # map int (concat (map (\<lambda>b. encodeOctet (parseInt b)) (drop 2 tmp)));
            w = ensure (2 + length bytes) w;
            w = writeByte tag w
        in case writeLength (int (length bytes)) w of
             (Some e, w) \<Rightarrow> (Some e, w)
           | (None, w) \<Rightarrow> (None, fold writeByte bytes w))"

subsection \<open>Sequences\<close>

definition startSequence :: "int \<Rightarrow> writer \<Rightarrow> writer" where
  "startSequence tag w =
     (let w = writeByte tag w;
          w = w\<lparr>wseq := woffset w # wseq w\<rparr>;
          w = ensure 3 w
      in w\<lparr>woffset := woffset w + 3\<rparr>)"

text \<open>\<open>_shift(start, len, shift)\<close>: a copy inside the Buffer, then the offset moves.
  The three assertions hold at every call of the source.\<close>

definition shift :: "nat \<Rightarrow> int \<Rightarrow> int \<Rightarrow> writer \<Rightarrow> writer" where
  "shift start len sh w =
     w\<lparr>wbuf := buffer_copy (wbuf w) (wbuf w) (nat (int start + sh)) start (nat (int start + len)),
       woffset := nat (int (woffset w) + sh)\<rparr>"

text \<open>
  \<open>endSequence()\<close>. On an empty stack \<open>pop\<close> gives \<open>undefined\<close>, \<open>len\<close> is \<open>NaN\<close>, every
  comparison is false and the last branch throws.
\<close>

definition endSequence :: "writer \<Rightarrow> error option \<times> writer" where
  "endSequence w =
     (case wseq w of
        [] \<Rightarrow> (Some InvalidAsn1Error, w)
      | seq # rest \<Rightarrow>
          let w = w\<lparr>wseq := rest\<rparr>;
              start = seq + 3;
              len = int (woffset w) - int start
          in
          if len \<le> 0x7f then
            let w = shift start len (- 2) w
            in (None, w\<lparr>wbuf := (wbuf w)[seq := of_int len]\<rparr>)
          else if len \<le> 0xff then
            let w = shift start len (- 1) w
            in (None, w\<lparr>wbuf := (wbuf w)[seq := 0x81, seq + 1 := of_int len]\<rparr>)
          else if len \<le> 0xffff then
            (None, w\<lparr>wbuf := (wbuf w)[seq := 0x82, seq + 1 := of_int (drop_bit 8 len),
                                       seq + 2 := of_int len]\<rparr>)
          else if len \<le> 0xffffff then
            let w = shift start len 1 w
            in (None, w\<lparr>wbuf := (wbuf w)[seq := 0x83, seq + 1 := of_int (drop_bit 16 len),
                                          seq + 2 := of_int (drop_bit 8 len),
                                          seq + 3 := of_int len]\<rparr>)
          else (Some InvalidAsn1Error, w))"

subsection \<open>Sequences of Writer operations\<close>

datatype writer_op =
    WriteByte int
  | WriteInt int int
  | WriteNull
  | WriteEnumeration int int
  | WriteBoolean bool int
  | WriteString "byte list" int
  | WriteBuffer "byte list" "int option"
  | WriteStringArray "byte list list" int
  | WriteOID string int
  | WriteLength int
  | StartSequence int
  | EndSequence

fun exec_op :: "writer_op \<Rightarrow> writer \<Rightarrow> error option \<times> writer" where
  "exec_op (WriteByte b) w = (None, writeByte b w)"
| "exec_op (WriteInt i tag) w = (None, writeInt i tag w)"
| "exec_op WriteNull w = (None, writeNull w)"
| "exec_op (WriteEnumeration i tag) w = (None, writeEnumeration i tag w)"
| "exec_op (WriteBoolean b tag) w = (None, writeBoolean b tag w)"
| "exec_op (WriteString s tag) w = writeString s tag w"
| "exec_op (WriteBuffer buf tag) w = writeBuffer buf tag w"
| "exec_op (WriteStringArray strings tag) w = writeStringArray strings tag w"
| "exec_op (WriteOID s tag) w = writeOID s tag w"
| "exec_op (WriteLength len) w = writeLength len w"
| "exec_op (StartSequence tag) w = (None, startSequence tag w)"
| "exec_op EndSequence w = endSequence w"

text \<open>A caller runs operations one after the other on the same Writer; an operation
  that throws leaves the Writer in the state it had reached, and the caller may go on.\<close>

fun run :: "writer_op list \<Rightarrow> writer \<Rightarrow> writer" where
  "run [] w = w"
| "run (op # ops) w = run ops (snd (exec_op op w))"


section \<open>The Reader\<close>

text \<open>
  The fields of the class: the input Buffer, its size, the length decoded last and the
  offset. A read returns \<open>null\<close> (no data), a value, or throws; in every case the Reader
  is left in some state, which is returned with the result.

  The length \<open>_len\<close> is kept exact. The host holds it in a double, which agrees with the
  exact value below \<open>2^53\<close>; from there on both exceed every Buffer size, and the Reader
  only compares the length with 0 and with a number of remaining octets.
\<close>

record reader =
  rbuf :: "byte list"
  rsize :: nat
  rlen :: nat
  roffset :: nat

definition Reader :: "byte list \<Rightarrow> reader" where
  "Reader data = \<lparr>rbuf = data, rsize = length data, rlen = 0, roffset = 0\<rparr>"

datatype 'a result = Null | Value 'a | Throw error

definition readByte :: "bool \<Rightarrow> reader \<Rightarrow> int result \<times> reader" where
  "readByte peek r =
     (if int (rsize r) - int (roffset r) < 1 then (Null, r)
      else
        let b = uint (byte_at (rbuf r) (roffset r) AND 0xff)
        in (Value b, if \<not> peek then r\<lparr>roffset := roffset r + 1\<rparr> else r))"

definition peek :: "reader \<Rightarrow> int result \<times> reader" where
  "peek r = readByte True r"

text \<open>The loop of \<open>readLength\<close> over the \<open>lenB\<close> octets from \<open>offset\<close> on.\<close>

definition length_octets :: "byte list \<Rightarrow> nat \<Rightarrow> nat \<Rightarrow> nat" where
  "length_octets buf offset lenB =
     foldl (\<lambda>len i. len * 256 + unat (byte_at buf i AND 0xff)) 0 [offset ..< offset + lenB]"

text \<open>\<open>readLength(offset)\<close>; \<open>None\<close> is the omitted argument. The test
  \<open>lenB === null\<close> of the source is never true. The check \<open>lenB > 4\<close> is commented out
  in the source and has no counterpart here.\<close>

definition readLength :: "nat option \<Rightarrow> reader \<Rightarrow> nat result \<times> reader" where
  "readLength offset_arg r =
     (let offset = (case offset_arg of None \<Rightarrow> roffset r | Some offset \<Rightarrow> offset) in
      if offset \<ge> rsize r then (Null, r)
      else
        let lenB = unat (byte_at (rbuf r) offset AND 0xff);
            offset = offset + 1
        in
        if lenB AND 0x80 = 0x80 then
          let lenB = lenB AND 0x7f in
          if lenB = 0 then (Throw InvalidAsn1Error, r)
          else if int (rsize r) - int offset < int lenB then (Null, r)
          else (Value (offset + lenB), r\<lparr>rlen := length_octets (rbuf r) offset lenB\<rparr>)
        else (Value offset, r\<lparr>rlen := lenB\<rparr>))"

text \<open>The tag test shared by the readers: \<open>tag\<close> is \<open>None\<close> when it is \<open>undefined\<close>.\<close>

definition readSequence :: "int option \<Rightarrow> reader \<Rightarrow> int result \<times> reader" where
  "readSequence tag r =
     (case peek r of
        (Null, r) \<Rightarrow> (Null, r)
      | (Throw e, r) \<Rightarrow> (Throw e, r)
      | (Value seq, r) \<Rightarrow>
          if tag \<noteq> None \<and> tag \<noteq> Some seq then (Throw InvalidAsn1Error, r)
          else
            (case readLength (Some (roffset r + 1)) r of
               (Null, r) \<Rightarrow> (Null, r)
             | (Throw e, r) \<Rightarrow> (Throw e, r)
             | (Value off, r) \<Rightarrow> (Value seq, r\<lparr>roffset := off\<rparr>)))"

definition isSafeInteger :: "int \<Rightarrow> bool" where
  "isSafeInteger v = (\<bar>v\<bar> \<le> 2 ^ 53 - 1)"

text \<open>
  \<open>_readTag(tag)\<close>. The first octet is read signed (\<open>readInt8\<close>), the others unsigned.
  The value is kept exact: on the host every step is exact while the value is a safe
  integer, and once a step leaves the safe range the rounded value stays outside it, so
  the test \<open>isSafeInteger\<close> decides the same way on the exact value.
\<close>

definition readTag :: "int option \<Rightarrow> reader \<Rightarrow> int result \<times> reader" where
  "readTag tag r =
     (case peek r of
        (Null, r) \<Rightarrow> (Null, r)
      | (Throw e, r) \<Rightarrow> (Throw e, r)
      | (Value b, r) \<Rightarrow>
          if tag \<noteq> None \<and> Some b \<noteq> tag then (Throw InvalidAsn1Error, r)
          else
            (case readLength (Some (roffset r + 1)) r of
               (Null, r) \<Rightarrow> (Null, r)
             | (Throw e, r) \<Rightarrow> (Throw e, r)
             | (Value off, r) \<Rightarrow>
                 if rlen r = 0 then (Throw InvalidAsn1Error, r)
                 else if int (rlen r) > int (rsize r) - int off then (Null, r)
                 else
                   let value = foldl (\<lambda>value i. value * 256 + uint (byte_at (rbuf r) i))
                                 (sint (byte_at (rbuf r) off)) [off + 1 ..< off + rlen r];
                       r = r\<lparr>roffset := off + rlen r\<rparr>
                   in if \<not> isSafeInteger value then (Throw InvalidAsn1Error, r)
                      else (Value value, r)))"

definition readInt :: "int option \<Rightarrow> reader \<Rightarrow> int result \<times> reader" where
  "readInt tag r = readTag tag r"

text \<open>\<open>readBoolean(tag)\<close> returns \<open>this._readTag(tag) !== 0\<close>: \<open>null !== 0\<close> is true.\<close>

definition readBoolean :: "int \<Rightarrow> reader \<Rightarrow> bool result \<times> reader" where
  "readBoolean tag r =
     (case readTag (Some tag) r of
        (Null, r) \<Rightarrow> (Value True, r)
      | (Throw e, r) \<Rightarrow> (Throw e, r)
      | (Value v, r) \<Rightarrow> (Value (v \<noteq> 0), r))"

definition readEnumeration :: "int \<Rightarrow> reader \<Rightarrow> int result \<times> reader" where
  "readEnumeration tag r = readTag (Some tag) r"

text \<open>\<open>subarray(start, end)\<close> and \<open>slice(start, end)\<close> of a Buffer.\<close>

definition subarray :: "byte list \<Rightarrow> nat \<Rightarrow> nat \<Rightarrow> byte list" where
  "subarray buf start fin = take (fin - start) (drop start buf)"

definition readBuffer :: "int \<Rightarrow> reader \<Rightarrow> byte list result \<times> reader" where
  "readBuffer tag r =
     (case peek r of
        (Null, r) \<Rightarrow> (Null, r)
      | (Throw e, r) \<Rightarrow> (Throw e, r)
      | (Value b, r) \<Rightarrow>
          if b \<noteq> tag then (Throw InvalidAsn1Error, r)
          else
            (case readLength (Some (roffset r + 1)) r of
               (Null, r) \<Rightarrow> (Null, r)
             | (Throw e, r) \<Rightarrow> (Throw e, r)
             | (Value off, r) \<Rightarrow>
                 if int (rlen r) > int (rsize r) - int off then (Null, r)
                 else
                   let r = r\<lparr>roffset := off + rlen r\<rparr>
                   in (Value (subarray (rbuf r) off (roffset r)), r)))"

text \<open>
  \<open>readString(tag, encoding)\<close>. \<open>tag\<close> is \<open>None\<close> when the caller gives no tag (or gives
  the encoding in its place); \<open>tag || ASN1.OctetString\<close> also replaces the tag 0. \<open>raw\<close>
  is the test \<open>encoding === true\<close>. The decoding of octets to text, \<open>buf.toString\<close>, is
  the host's and is a parameter.
\<close>

datatype ('t) string_value = Raw "byte list" | Text 't

definition readString ::
  "(byte list \<Rightarrow> 't) \<Rightarrow> int option \<Rightarrow> bool \<Rightarrow> reader \<Rightarrow> 't string_value result \<times> reader" where
  "readString toString tag raw r =
     (case readBuffer (case tag of None \<Rightarrow> ASN1_OctetString
                       | Some t \<Rightarrow> if t = 0 then ASN1_OctetString else t) r of
        (Null, r) \<Rightarrow> (Null, r)
      | (Throw e, r) \<Rightarrow> (Throw e, r)
      | (Value buf, r) \<Rightarrow> if raw then (Value (Raw buf), r) else (Value (Text (toString buf)), r))"


subsection \<open>Reading object identifiers\<close>

text \<open>
  The loop of \<open>readOID\<close>. \<open>value <<= 7\<close> works on 32-bit integers, and adding the low
  seven bits of the octet cannot leave their range, so the accumulator is a \<open>32 word\<close>;
  \<open>value >>> 0\<close> reads it unsigned.
\<close>

fun oid_values :: "byte list \<Rightarrow> 32 word \<Rightarrow> nat list \<Rightarrow> nat list" where
  "oid_values [] value values = values"
| "oid_values (byte # b) value values =
     (let value = push_bit 7 value;
          value = value + ucast (byte AND 0x7f)
      in if byte AND 0x80 = 0 then oid_values b 0 (values @ [unat value])
         else oid_values b value values)"

text \<open>The text of a natural number in a radix up to 10, as \<open>toString\<close> gives it.\<close>

definition digit_char :: "nat \<Rightarrow> char" where
  "digit_char d = ''0123456789'' ! d"

fun radix_string :: "nat \<Rightarrow> nat \<Rightarrow> string" where
  "radix_string b n =
     (if n < b \<or> b < 2 then [digit_char n]
      else radix_string b (n div b) @ [digit_char (n mod b)])"

declare radix_string.simps [simp del]

text \<open>\<open>pieces.join('.')\<close>.\<close>

fun join_dot :: "string list \<Rightarrow> string" where
  "join_dot [] = []"
| "join_dot [p] = p"
| "join_dot (p # ps) = p @ CHR ''.'' # join_dot ps"

text \<open>
  The end of \<open>readOID\<close>: the first value is split in two. Without any value \<open>shift\<close>
  gives \<open>undefined\<close>, the two numbers put in front are 0 and \<open>NaN\<close>.
\<close>

definition oid_text :: "nat list \<Rightarrow> string" where
  "oid_text values =
     (case values of
        [] \<Rightarrow> ''0.NaN''
      | value # values \<Rightarrow>
          join_dot (map (radix_string 10) ((value div 40) # (value mod 40) # values)))"

definition readOID :: "int \<Rightarrow> reader \<Rightarrow> string result \<times> reader" where
  "readOID tag r =
     (case readString (\<lambda>buf. buf) (Some tag) True r of
        (Null, r) \<Rightarrow> (Null, r)
      | (Throw e, r) \<Rightarrow> (Throw e, r)
      | (Value v, r) \<Rightarrow>
          let b = (case v of Raw b \<Rightarrow> b | Text b \<Rightarrow> b)
          in (Value (oid_text (oid_values b 0 [])), r))"

subsection \<open>Bit strings\<close>

text \<open>
  \<open>readBitString\<close> goes through the host's numbers:
  \<open>parseInt(octets.toString('hex'), 16).toString(2).padStart(8 * octets.length, '0')\<close>.
  \<open>parseInt\<close> of the empty text is \<open>NaN\<close>; otherwise it is the big-endian value of the
  octets rounded to a double (53 significant bits, to nearest, ties to even), which is
  \<open>Infinity\<close> from \<open>2^1024\<close> on. \<open>toString(2)\<close> prints the binary digits of that
  number, or the words \<open>NaN\<close> and \<open>Infinity\<close>.
\<close>

datatype number = NaN | Infinity | Finite nat

definition to_double :: "nat \<Rightarrow> number" where
  "to_double n =
     (let k = length (radix_string 2 n) in
      if k \<le> 53 then Finite n
      else
        let e = k - 53;
            q = n div 2 ^ e;
            r = n mod 2 ^ e;
            q = (if 2 * r > 2 ^ e \<or> (2 * r = 2 ^ e \<and> odd q) then q + 1 else q);
            v = q * 2 ^ e
        in if v \<ge> 2 ^ 1024 then Infinity else Finite v)"

definition parseInt_hex :: "byte list \<Rightarrow> number" where
  "parseInt_hex octets =
     (if octets = [] then NaN else to_double (foldl (\<lambda>v b. v * 256 + unat b) 0 octets))"

definition toString2 :: "number \<Rightarrow> string" where
  "toString2 x = (case x of NaN \<Rightarrow> ''NaN'' | Infinity \<Rightarrow> ''Infinity''
                  | Finite n \<Rightarrow> radix_string 2 n)"

definition padStart :: "string \<Rightarrow> nat \<Rightarrow> char \<Rightarrow> string" where
  "padStart s n c = replicate (n - length s) c @ s"

text \<open>\<open>readBitString(tag)\<close>. \<open>substring(0, n)\<close> with a negative \<open>n\<close> is the empty text,
  as \<open>take\<close> of a truncated difference is.\<close>

definition readBitString :: "int \<Rightarrow> reader \<Rightarrow> string result \<times> reader" where
  "readBitString tag r =
     (case peek r of
        (Null, r) \<Rightarrow> (Null, r)
      | (Throw e, r) \<Rightarrow> (Throw e, r)
      | (Value b, r) \<Rightarrow>
          if b \<noteq> tag then (Throw InvalidAsn1Error, r)
          else
            (case readLength (Some (roffset r + 1)) r of
               (Null, r) \<Rightarrow> (Null, r)
             | (Throw e, r) \<Rightarrow> (Throw e, r)
             | (Value off, r) \<Rightarrow>
                 if int (rlen r) > int (rsize r) - int off then (Null, r)
                 else
                   let r = r\<lparr>roffset := off\<rparr> in
                   if rlen r = 0 then (Value [], r)
                   else
                     let ignoredBits = unat (byte_at (rbuf r) (roffset r));
                         r = r\<lparr>roffset := roffset r + 1\<rparr>;
                         bitStringOctets =
                           subarray (rbuf r) (roffset r) (roffset r + rlen r - 1);
                         bitString = padStart (toString2 (parseInt_hex bitStringOctets))
                                       (length bitStringOctets * 8) CHR ''0'';
                         r = r\<lparr>roffset := roffset r + rlen r - 1\<rparr>
                     in (Value (take (length bitString - ignoredBits) bitString), r)))"

subsection \<open>The read operations as one family\<close>

datatype read_op =
    ReadByte bool
  | Peek
  | ReadLength "nat option"
  | ReadSequence "int option"
  | ReadInt "int option"
  | ReadBoolean int
  | ReadEnumeration int
  | ReadBuffer int
  | ReadString "int option" bool
  | ReadOID int
  | ReadBitString int

datatype rvalue = Num int | Bool bool | Bytes "byte list" | Str string

fun exec_read :: "(byte list \<Rightarrow> string) \<Rightarrow> read_op \<Rightarrow> reader \<Rightarrow> rvalue result \<times> reader" where
  "exec_read toString (ReadByte p) r = apfst (map_result Num) (readByte p r)"
| "exec_read toString Peek r = apfst (map_result Num) (peek r)"
| "exec_read toString (ReadLength offset) r =
     apfst (map_result (\<lambda>off. Num (int off))) (readLength offset r)"
| "exec_read toString (ReadSequence tag) r = apfst (map_result Num) (readSequence tag r)"
| "exec_read toString (ReadInt tag) r = apfst (map_result Num) (readInt tag r)"
| "exec_read toString (ReadBoolean tag) r = apfst (map_result Bool) (readBoolean tag r)"
| "exec_read toString (ReadEnumeration tag) r = apfst (map_result Num) (readEnumeration tag r)"
| "exec_read toString (ReadBuffer tag) r = apfst (map_result Bytes) (readBuffer tag r)"
| "exec_read toString (ReadString tag raw) r =
     apfst (map_result (\<lambda>v. case v of Raw b \<Rightarrow> Bytes b | Text t \<Rightarrow> Str t))
       (readString toString tag raw r)"
| "exec_read toString (ReadOID tag) r = apfst (map_result Str) (readOID tag r)"
| "exec_read toString (ReadBitString tag) r = apfst (map_result Str) (readBitString tag r)"


section \<open>Notions used by the properties\<close>

text \<open>The octets written so far, which the \<open>buffer\<close> accessor hands out.\<close>

definition committed :: "writer \<Rightarrow> byte list" where
  "committed w = take (woffset w) (wbuf w)"

text \<open>\<open>room n w\<close>: the size field is the size of the Buffer and \<open>n\<close> more octets fit.\<close>

definition room :: "nat \<Rightarrow> writer \<Rightarrow> bool" where
  "room n w = (woffset w + n \<le> wsize w \<and> wsize w = length (wbuf w))"

text \<open>A Writer as the constructor and the operations leave it, with a growth factor
  that grows.\<close>

definition writer_ok :: "writer \<Rightarrow> bool" where
  "writer_ok w = (room 0 w \<and> 1 \<le> wgrowthFactor w)"

text \<open>\<open>fits n i\<close>: the integer \<open>i\<close> has a two's-complement form of \<open>n\<close> octets.\<close>

definition fits :: "nat \<Rightarrow> int \<Rightarrow> bool" where
  "fits n i = (- (2 ^ (8 * n - 1)) \<le> i \<and> i < 2 ^ (8 * n - 1))"

text \<open>The value of a non-empty run of octets read big-endian, the first octet signed
  (\<open>be_int\<close>), and of any run of octets read big-endian and unsigned (\<open>be_nat\<close>).\<close>

definition be_int :: "byte list \<Rightarrow> int" where
  "be_int p = foldl (\<lambda>v b. v * 256 + uint b) (sint (hd p)) (tl p)"

definition be_nat :: "byte list \<Rightarrow> nat" where
  "be_nat octets = foldl (\<lambda>v b. v * 256 + unat b) 0 octets"

text \<open>The number of sequences opened and not yet closed after a list of operations,
  starting from \<open>n\<close> open ones.\<close>

fun pending :: "writer_op list \<Rightarrow> nat \<Rightarrow> nat" where
  "pending [] n = n"
| "pending (StartSequence tag # ops) n = pending ops (Suc n)"
| "pending (EndSequence # ops) n = pending ops (n - 1)"
| "pending (op # ops) n = pending ops n"

text \<open>Two Reader states over the same input at the same offset.\<close>

definition same_input :: "reader \<Rightarrow> reader \<Rightarrow> bool" where
  "same_input r r' = (roffset r' = roffset r \<and> rbuf r' = rbuf r \<and> rsize r' = rsize r)"



text \<open>The dotted-decimal text of a list of arcs, each arc in decimal without leading
  zeros.\<close>

definition dotted :: "nat list \<Rightarrow> string" where
  "dotted arcs = join_dot (map (radix_string 10) arcs)"

text \<open>The octets of the minimal length field for a length up to \<open>0xFFFFFF\<close>.\<close>

definition length_field :: "nat \<Rightarrow> byte list" where
  "length_field n =
     (if n \<le> 0x7F then [of_nat n]
      else if n \<le> 0xFF then [0x81, of_nat n]
      else if n \<le> 0xFFFF then [0x82, of_nat (n div 256), of_nat n]
      else [0x83, of_nat (n div 65536), of_nat (n div 256), of_nat n])"

text \<open>The Reader over the first \<open>n\<close> octets of its input: the state a caller is in
  when only that much of the data has arrived.\<close>

definition first_octets :: "nat \<Rightarrow> reader \<Rightarrow> reader" where
  "first_octets n r = r\<lparr>rbuf := take n (rbuf r), rsize := min n (rsize r)\<rparr>"

text \<open>The \<open>k\<close> binary digits of a number below \<open>2^k\<close>, most significant first, and the
  digits of a run of octets, eight to the octet.\<close>

fun binary :: "nat \<Rightarrow> nat \<Rightarrow> string" where
  "binary n 0 = []"
| "binary n (Suc k) = binary (n div 2) k @ [digit_char (n mod 2)]"

definition unpack_bits :: "byte list \<Rightarrow> string" where
  "unpack_bits octets = concat (map (\<lambda>b. binary (unat b) 8) octets)"

section \<open>Growth and stores of the Writer\<close>

lemma length_alloc [simp]: "length (alloc n) = n"
  by (simp add: alloc_def)

lemma buffer_copy_prefix:
  "n \<le> length src \<Longrightarrow> n \<le> m \<Longrightarrow> buffer_copy src (alloc m) 0 0 n = take n src @ alloc (m - n)"
  by (auto simp: buffer_copy_def alloc_def Let_def min_def)

lemma ensure_room:
  assumes "room 0 w" and "woffset w \<le> wsize w * wgrowthFactor w"
  shows "room n (ensure n w)" and "committed (ensure n w) = committed w"
    and "woffset (ensure n w) = woffset w" and "wseq (ensure n w) = wseq w"
    and "wgrowthFactor (ensure n w) = wgrowthFactor w"
proof -
  let ?sz = "wsize w * wgrowthFactor w"
  let ?sz' = "if int ?sz - int (woffset w) < int n then ?sz + n else ?sz"
  have le: "woffset w + n \<le> ?sz'"
    using assms(2) by (auto simp del: of_nat_mult)
  have cp: "buffer_copy (wbuf w) (alloc ?sz') 0 0 (woffset w)
            = take (woffset w) (wbuf w) @ alloc (?sz' - woffset w)"
    using assms(1) le by (intro buffer_copy_prefix) (auto simp: room_def)
  show "room n (ensure n w)"
    using assms(1) le unfolding ensure_def Let_def cp
    by (auto simp: room_def)
  show "committed (ensure n w) = committed w"
    using assms(1) unfolding ensure_def Let_def cp
    by (auto simp: room_def committed_def)
  show "woffset (ensure n w) = woffset w" "wseq (ensure n w) = wseq w"
    "wgrowthFactor (ensure n w) = wgrowthFactor w"
    by (simp_all add: ensure_def Let_def)
qed

lemma ensure_ok:
  assumes "writer_ok w"
  shows "room n (ensure n w)" and "committed (ensure n w) = committed w"
    and "woffset (ensure n w) = woffset w" and "wseq (ensure n w) = wseq w"
    and "wgrowthFactor (ensure n w) = wgrowthFactor w"
proof -
  have "wsize w \<le> wsize w * wgrowthFactor w"
    using assms by (cases "wgrowthFactor w") (simp_all add: writer_ok_def)
  then have le: "woffset w \<le> wsize w * wgrowthFactor w"
    using assms unfolding writer_ok_def room_def by linarith
  have r0: "room 0 w"
    using assms by (simp add: writer_ok_def)
  show "room n (ensure n w)" and "committed (ensure n w) = committed w"
    and "woffset (ensure n w) = woffset w" and "wseq (ensure n w) = wseq w"
    and "wgrowthFactor (ensure n w) = wgrowthFactor w"
    using ensure_room [OF r0 le] by simp_all
qed

lemma room_mono: "room n w \<Longrightarrow> m \<le> n \<Longrightarrow> room m w"
  by (simp add: room_def)

lemma put_room:
  assumes "room (Suc n) w"
  shows "room n (put v w)" and "committed (put v w) = committed w @ [of_int v]"
    and "woffset (put v w) = Suc (woffset w)" and "wseq (put v w) = wseq w"
    and "wgrowthFactor (put v w) = wgrowthFactor w"
  using assms
  by (auto simp: put_def room_def committed_def take_Suc_conv_app_nth)

lemma put_all_room:
  "room (length vs + n) w \<Longrightarrow>
   room n (put_all vs w) \<and> committed (put_all vs w) = committed w @ map of_int vs
   \<and> woffset (put_all vs w) = woffset w + length vs \<and> wseq (put_all vs w) = wseq w
   \<and> wgrowthFactor (put_all vs w) = wgrowthFactor w"
proof (induction vs arbitrary: w)
  case Nil
  then show ?case by simp
next
  case (Cons v vs)
  from Cons.prems have r: "room (Suc (length vs + n)) w" by simp
  show ?case
    using Cons.IH [OF put_room(1) [OF r]] put_room(2-5) [OF r, of v]
    by simp
qed

lemma and_255: "(k::int) AND 0xff = k mod 256"
  using take_bit_eq_mask [of 8 k] by (simp add: take_bit_eq_mod mask_eq_exp_minus_1)

lemma uint_byte: "uint (of_int k :: byte) = k mod 256"
  by (simp add: uint_word_of_int)

section \<open>The length field written by \<open>writeLength\<close>\<close>

text \<open>
  C7. \<open>writeLength(len)\<close>, for a length \<open>len \<ge> 0\<close>, appends to the octets written so far
  exactly \<open>[len]\<close> when \<open>len \<le> 0x7F\<close>, \<open>[0x81, len]\<close> when \<open>0x7F < len \<le> 0xFF\<close>,
  \<open>[0x82, len >> 8, len & 0xFF]\<close> when \<open>0xFF < len \<le> 0xFFFF\<close>,
  \<open>[0x83, len >> 16, (len >> 8) & 0xFF, len & 0xFF]\<close> when \<open>0xFFFF < len \<le> 0xFFFFFF\<close>,
  and throws the malformed-encoding error, writing nothing, when \<open>len > 0xFFFFFF\<close>.
  The octets are compared as the numbers they hold (\<open>uint\<close>).
\<close>

theorem writeLength_forms:
  assumes "writer_ok w" and "0 \<le> len"
  shows "(len \<le> 0x7F \<longrightarrow>
            fst (writeLength len w) = None \<and>
            map uint (committed (snd (writeLength len w))) = map uint (committed w) @ [len])
       \<and> (0x7F < len \<and> len \<le> 0xFF \<longrightarrow>
            fst (writeLength len w) = None \<and>
            map uint (committed (snd (writeLength len w))) = map uint (committed w) @ [0x81, len])
       \<and> (0xFF < len \<and> len \<le> 0xFFFF \<longrightarrow>
            fst (writeLength len w) = None \<and>
            map uint (committed (snd (writeLength len w)))
              = map uint (committed w) @ [0x82, drop_bit 8 len, len AND 0xFF])
       \<and> (0xFFFF < len \<and> len \<le> 0xFFFFFF \<longrightarrow>
            fst (writeLength len w) = None \<and>
            map uint (committed (snd (writeLength len w)))
              = map uint (committed w)
                @ [0x83, drop_bit 16 len, drop_bit 8 len AND 0xFF, len AND 0xFF])
       \<and> (0xFFFFFF < len \<longrightarrow>
            fst (writeLength len w) = Some InvalidAsn1Error \<and>
            committed (snd (writeLength len w)) = committed w)"
proof -
  let ?w = "ensure 4 w"
  have r4: "room 4 ?w" and c: "committed ?w = committed w"
    using ensure_ok [OF assms(1)] by simp_all
  have p1: "committed (put a ?w) = committed w @ [of_int a]" for a
    using put_room(2) [of 3 ?w a] r4 c by (simp add: numeral_eq_Suc)
  have p2: "committed (put b (put a ?w)) = committed w @ [of_int a, of_int b]" for a b
    using put_room(2) [of 2 "put a ?w" b] put_room(1) [of 3 ?w a] r4 p1
    by (simp add: numeral_eq_Suc)
  have p3: "committed (put c (put b (put a ?w))) = committed w @ [of_int a, of_int b, of_int c]"
    for a b c
    using put_room(2) [of 1 "put b (put a ?w)" c] put_room(1) [of 2 "put a ?w" b]
      put_room(1) [of 3 ?w a] r4 p2
    by (simp add: numeral_eq_Suc)
  have p4: "committed (put d (put c (put b (put a ?w))))
            = committed w @ [of_int a, of_int b, of_int c, of_int d]" for a b c d
    using put_room(2) [of 0 "put c (put b (put a ?w))" d]
      put_room(1) [of 1 "put b (put a ?w)" c] put_room(1) [of 2 "put a ?w" b]
      put_room(1) [of 3 ?w a] r4 p3
    by (simp add: numeral_eq_Suc)
  have d8: "len \<le> 0xFFFF \<Longrightarrow> drop_bit 8 len mod 256 = drop_bit 8 len"
    using assms(2) by (simp add: drop_bit_eq_div)
  have d16: "len \<le> 0xFFFFFF \<Longrightarrow> drop_bit 16 len mod 256 = drop_bit 16 len"
    using assms(2) by (simp add: drop_bit_eq_div)
  show ?thesis
    using assms(2)
    by (simp add: writeLength_def Let_def p1 p2 p3 p4 c and_255 uint_byte d8 d16)
qed

lemma writer_ok_Writer: "1 \<le> gf \<Longrightarrow> writer_ok (Writer sz gf)"
  by (simp add: writer_ok_def room_def Writer_def)

lemma committed_Writer [simp]: "committed (Writer sz gf) = []"
  by (simp add: committed_def Writer_def)

theorem writeLength_forms_witness:
  "writer_ok (Writer 1024 8) \<and> (0::int) \<le> 127
   \<and> map uint (committed (snd (writeLength 0 (Writer 1024 8)))) = [0]
   \<and> map uint (committed (snd (writeLength 127 (Writer 1024 8)))) = [127]
   \<and> map uint (committed (snd (writeLength 128 (Writer 1024 8)))) = [0x81, 128]
   \<and> map uint (committed (snd (writeLength 255 (Writer 1024 8)))) = [0x81, 255]
   \<and> map uint (committed (snd (writeLength 256 (Writer 1024 8)))) = [0x82, 1, 0]
   \<and> map uint (committed (snd (writeLength 65535 (Writer 1024 8)))) = [0x82, 255, 255]
   \<and> map uint (committed (snd (writeLength 65536 (Writer 1024 8)))) = [0x83, 1, 0, 0]
   \<and> map uint (committed (snd (writeLength 16777215 (Writer 1024 8)))) = [0x83, 255, 255, 255]
   \<and> fst (writeLength 16777216 (Writer 1024 8)) = Some InvalidAsn1Error
   \<and> committed (snd (writeLength 16777216 (Writer 1024 8))) = []"
proof -
  have ok: "writer_ok (Writer 1024 8)"
    by (rule writer_ok_Writer) simp
  show ?thesis
    using ok
      writeLength_forms [OF ok, of 0] writeLength_forms [OF ok, of 127]
      writeLength_forms [OF ok, of 128] writeLength_forms [OF ok, of 255]
      writeLength_forms [OF ok, of 256] writeLength_forms [OF ok, of 65535]
      writeLength_forms [OF ok, of 65536] writeLength_forms [OF ok, of 16777215]
      writeLength_forms [OF ok, of 16777216]
    by (simp add: drop_bit_eq_div and_255)
qed

section \<open>The pending-sequence stack and the \<open>buffer\<close> accessor\<close>

lemma wseq_ensure [simp]: "wseq (ensure n w) = wseq w"
  by (simp add: ensure_def Let_def)

lemma wseq_put [simp]: "wseq (put v w) = wseq w"
  by (simp add: put_def)

lemma wseq_put_all [simp]: "wseq (put_all vs w) = wseq w"
  by (induction vs arbitrary: w) simp_all

lemma wseq_writeByte [simp]: "wseq (writeByte b w) = wseq w"
  by (simp add: writeByte_def)

lemma wseq_fold_writeByte [simp]: "wseq (fold writeByte bs w) = wseq w"
  by (induction bs arbitrary: w) simp_all

lemma wseq_writeInt [simp]: "wseq (writeInt i tag w) = wseq w"
  by (simp add: writeInt_def Let_def)

lemma wseq_writeLength [simp]: "wseq (snd (writeLength len w)) = wseq w"
  by (simp add: writeLength_def Let_def)

lemma wseq_writeLength_eq: "writeLength len w = (e, w') \<Longrightarrow> wseq w' = wseq w"
  using wseq_writeLength [of len w] by simp

lemma wseq_writeString [simp]: "wseq (snd (writeString s tag w)) = wseq w"
  by (auto simp: writeString_def Let_def split: prod.splits option.splits
      dest!: wseq_writeLength_eq)

lemma wseq_writeString_eq: "writeString s tag w = (e, w') \<Longrightarrow> wseq w' = wseq w"
  using wseq_writeString [of s tag w] by simp

lemma wseq_writeBuffer [simp]: "wseq (snd (writeBuffer buf tag w)) = wseq w"
  by (auto simp: writeBuffer_def Let_def split: prod.splits option.splits
      dest!: wseq_writeLength_eq)

lemma wseq_writeStringArray [simp]: "wseq (snd (writeStringArray strings tag w)) = wseq w"
proof (induction strings arbitrary: w)
  case Nil
  then show ?case by simp
next
  case (Cons s strings)
  then show ?case
    by (auto split: prod.splits option.splits dest!: wseq_writeString_eq)
qed

lemma wseq_writeOID [simp]: "wseq (snd (writeOID s tag w)) = wseq w"
  by (auto simp: writeOID_def Let_def split: prod.splits option.splits
      dest!: wseq_writeLength_eq)

lemma wseq_startSequence: "wseq (startSequence tag w) = woffset (writeByte tag w) # wseq w"
  by (simp add: startSequence_def Let_def)

lemma wseq_endSequence: "wseq (snd (endSequence w)) = tl (wseq w)"
  by (auto simp: endSequence_def Let_def shift_def split: list.splits)

lemma length_wseq_exec_op:
  "length (wseq (snd (exec_op op w))) = pending [op] (length (wseq w))"
  by (cases op)
    (simp_all add: writeNull_def writeEnumeration_def writeBoolean_def Let_def
      wseq_startSequence wseq_endSequence)

lemma pending_Cons: "pending (op # ops) n = pending ops (pending [op] n)"
  by (cases op) simp_all

lemma length_wseq_run: "length (wseq (run ops w)) = pending ops (length (wseq w))"
proof (induction ops arbitrary: w)
  case Nil
  then show ?case by simp
next
  case (Cons op ops)
  show ?case
    using Cons [of "snd (exec_op op w)"] length_wseq_exec_op [of op w]
      pending_Cons [of op ops "length (wseq w)"]
    by simp
qed

text \<open>
  C8. The \<open>buffer\<close> accessor throws the malformed-encoding error exactly when the
  stack of pending sequences is not empty, and otherwise returns the octets from 0 up to
  the offset. After a list of operations on a Writer the stack holds one entry for every
  \<open>startSequence\<close> that no \<open>endSequence\<close> has matched.
\<close>

theorem buffer_accessor:
  "(buffer w = Inl InvalidAsn1Error \<longleftrightarrow> wseq w \<noteq> [])
   \<and> ((\<exists>e. buffer w = Inl e) \<longleftrightarrow> wseq w \<noteq> [])
   \<and> (wseq w = [] \<longrightarrow> buffer w = Inr (take (woffset w) (wbuf w)))
   \<and> length (wseq (run ops w)) = pending ops (length (wseq w))"
  using length_wseq_run [of ops w] by (auto simp: buffer_def)

theorem buffer_accessor_witness:
  "buffer (run [StartSequence 0x30, WriteByte 7] (Writer 8 8)) = Inl InvalidAsn1Error
   \<and> buffer (run [StartSequence 0x30, WriteByte 7, EndSequence] (Writer 8 8))
       = Inr [0x30, 1, 7]
   \<and> wseq (run [StartSequence 0x30, WriteByte 7, EndSequence] (Writer 8 8)) = []"
proof -
  let ?w1 = "run [StartSequence 0x30, WriteByte 7] (Writer 8 8)"
  let ?w2 = "run [StartSequence 0x30, WriteByte 7, EndSequence] (Writer 8 8)"
  have s1: "wseq ?w1 = [1]" and s2: "wseq ?w2 = []"
    and b2: "take (woffset ?w2) (wbuf ?w2) = [0x30, 1, 7]"
    by code_simp+
  show ?thesis
    using buffer_accessor [of ?w1 "[]"] buffer_accessor [of ?w2 "[]"] s1 s2 b2
    by simp
qed

section \<open>What a read leaves behind when it returns no data\<close>

lemma same_input_refl [simp]: "same_input r r"
  by (simp add: same_input_def)

lemma peek_state: "peek r = (x, r') \<Longrightarrow> r' = r"
  by (auto simp: peek_def readByte_def Let_def split: if_splits)

lemma readLength_same: "readLength a r = (x, r') \<Longrightarrow> same_input r r'"
  by (auto simp: readLength_def Let_def same_input_def split: if_splits option.splits)

lemma readByte_null: "readByte p r = (Null, r') \<Longrightarrow> same_input r r'"
  by (auto simp: readByte_def Let_def same_input_def split: if_splits)

lemma readSequence_null: "readSequence tag r = (Null, r') \<Longrightarrow> same_input r r'"
  by (auto simp: readSequence_def split: prod.splits result.splits if_splits
      dest!: peek_state readLength_same)

lemma readTag_null: "readTag tag r = (Null, r') \<Longrightarrow> same_input r r'"
  by (auto simp: readTag_def Let_def split: prod.splits result.splits if_splits
      dest!: peek_state readLength_same)

lemma readBuffer_null: "readBuffer tag r = (Null, r') \<Longrightarrow> same_input r r'"
  by (auto simp: readBuffer_def Let_def split: prod.splits result.splits if_splits
      dest!: peek_state readLength_same)

lemma readString_null: "readString ts tag raw r = (Null, r') \<Longrightarrow> same_input r r'"
  by (auto simp: readString_def split: prod.splits result.splits if_splits
      dest!: readBuffer_null)

lemma readOID_null: "readOID tag r = (Null, r') \<Longrightarrow> same_input r r'"
  by (auto simp: readOID_def Let_def split: prod.splits result.splits if_splits
      dest!: readString_null)

lemma readBitString_null: "readBitString tag r = (Null, r') \<Longrightarrow> same_input r r'"
  by (auto simp: readBitString_def Let_def split: prod.splits result.splits if_splits
      dest!: peek_state readLength_same)

lemma readBoolean_null: "readBoolean tag r = (Null, r') \<Longrightarrow> same_input r r'"
  by (auto simp: readBoolean_def Let_def split: prod.splits result.splits if_splits)

lemma apfst_map_Null: "apfst (map_result f) p = (Null, r') \<longleftrightarrow> p = (Null, r')"
  by (cases p; cases "fst p") auto

text \<open>
  C10. When a read operation of the Reader returns the no-data value \<open>null\<close>, the offset
  is what it was before the call, and so are the input Buffer and its size: of the state
  only the length decoded last may have changed.
\<close>

theorem null_keeps_offset:
  "exec_read toString op r = (Null, r') \<Longrightarrow>
     roffset r' = roffset r \<and> r' = r\<lparr>rlen := rlen r'\<rparr>"
proof -
  assume "exec_read toString op r = (Null, r')"
  then have "same_input r r'"
    by (cases op)
      (auto simp: apfst_map_Null readInt_def readEnumeration_def
        dest: readByte_null readSequence_null readTag_null readBuffer_null readString_null
          readOID_null readBitString_null readBoolean_null peek_state readLength_same)
  then show ?thesis
    by (simp add: same_input_def)
qed

theorem null_keeps_offset_witness:
  "exec_read (\<lambda>b. []) (ReadInt None) ((Reader [5, 0, 2, 2, 1])\<lparr>roffset := 2\<rparr>)
     = (Null, (Reader [5, 0, 2, 2, 1])\<lparr>rlen := 2, roffset := 2\<rparr>)
   \<and> roffset ((Reader [5, 0, 2, 2, 1])\<lparr>rlen := 2, roffset := 2\<rparr>) = 2"
proof -
  have e: "exec_read (\<lambda>b. []) (ReadInt None) ((Reader [5, 0, 2, 2, 1])\<lparr>roffset := 2\<rparr>)
           = (Null, (Reader [5, 0, 2, 2, 1])\<lparr>rlen := 2, roffset := 2\<rparr>)"
    by code_simp
  from null_keeps_offset [OF e] e show ?thesis
    by simp
qed

section \<open>The length field read by \<open>readLength\<close>\<close>

lemma byte_and_ff [simp]: "(w::byte) AND 0xff = w"
proof -
  have "(0xff::byte) = - 1" by simp
  then show ?thesis by (simp only: and.right_neutral)
qed

lemma and_exp_cases: "(a::nat) AND 2 ^ n = (if bit a n then 2 ^ n else 0)"
  by (rule bit_eqI) (auto simp: bit_and_iff bit_exp_iff)

lemma nat_and_128: "b < 256 \<Longrightarrow> ((b::nat) AND 0x80 = 0x80) = (128 \<le> b)"
proof -
  assume b: "b < 256"
  have "b div 128 < 2" using b by simp
  then have "odd (b div 128) = (128 \<le> b)"
    by (cases "b div 128 = 0") (auto simp: div_eq_0_iff less_2_cases_iff)
  then show ?thesis
    using and_exp_cases [of b 7] by (simp add: bit_iff_odd)
qed

lemma nat_and_127: "(b::nat) AND 0x7f = b mod 128"
  using take_bit_eq_mask [of 7 b] by (simp add: take_bit_eq_mod mask_eq_exp_minus_1)

lemma bytes_range:
  "off + n \<le> length buf \<Longrightarrow> map (byte_at buf) [off ..< off + n] = take n (drop off buf)"
proof -
  assume le: "off + n \<le> length buf"
  have "take n (drop off buf) = take n (drop off (map ((!) buf) [0 ..< length buf]))"
    by (simp add: map_nth)
  also have "\<dots> = map ((!) buf) (take n (drop off [0 ..< length buf]))"
    by (simp add: take_map drop_map)
  also have "take n (drop off [0 ..< length buf]) = [off ..< off + n]"
    using le by (simp add: drop_upt take_upt)
  also have "map ((!) buf) [off ..< off + n] = map (byte_at buf) [off ..< off + n]"
    using le by (simp add: byte_at_def)
  finally show ?thesis by simp
qed

lemma length_octets_be:
  "off + n \<le> length buf \<Longrightarrow> length_octets buf off n = be_nat (take n (drop off buf))"
  by (simp add: length_octets_def be_nat_def bytes_range [symmetric] foldl_map)

lemma readLength_cases:
  assumes "rsize r = length (rbuf r)" and "off < rsize r"
  shows "(unat (rbuf r ! off) < 128 \<longrightarrow>
            readLength (Some off) r = (Value (off + 1), r\<lparr>rlen := unat (rbuf r ! off)\<rparr>))
       \<and> (unat (rbuf r ! off) = 128 \<longrightarrow>
            readLength (Some off) r = (Throw InvalidAsn1Error, r))
       \<and> (\<forall>n. unat (rbuf r ! off) = 128 + n \<and> 1 \<le> n \<and> off + 1 + n \<le> rsize r \<longrightarrow>
            readLength (Some off) r
              = (Value (off + 1 + n), r\<lparr>rlen := be_nat (take n (drop (off + 1) (rbuf r)))\<rparr>))
       \<and> (\<forall>n. unat (rbuf r ! off) = 128 + n \<and> 1 \<le> n \<and> rsize r < off + 1 + n \<longrightarrow>
            readLength (Some off) r = (Null, r))"
proof -
  let ?b = "unat (rbuf r ! off)"
  have b: "?b < 256"
    using unsigned_less [of "rbuf r ! off", where ?'a = nat] by simp
  have at: "byte_at (rbuf r) off = rbuf r ! off"
    using assms by (simp add: byte_at_def)
  have m: "?b mod 128 = ?b - 128" if "128 \<le> ?b"
    using that b by (simp add: mod_if)
  show ?thesis
    using assms b
    by (auto simp: readLength_def Let_def at nat_and_128 nat_and_127 m length_octets_be)
qed

text \<open>
  C3, as the claim states it: a long-form count above 4 is never decoded as a valid
  length. The code decodes the count 5: the field \<open>85 00 00 00 00 05\<close> is read as the
  length 5, and the offset after the field is returned.
\<close>

theorem readLength_count_above_4:
  "readLength None (Reader [0x85, 0, 0, 0, 0, 5])
     = (Value 6, (Reader [0x85, 0, 0, 0, 0, 5])\<lparr>rlen := 5\<rparr>)"
  by code_simp

text \<open>
  C3, amended. \<open>readLength\<close>, at an offset inside the input, accepts the short form (one
  octet below 128, which is the length) and the long form with any octet count \<open>n\<close> from 1
  to 127: the count octet \<open>0x80\<close> (\<open>n = 0\<close>, indefinite length) throws the
  malformed-encoding error; a count octet \<open>0x80 + n\<close> with \<open>n \<ge> 1\<close> whose \<open>n\<close> octets are
  in the input is accepted, also when \<open>n > 4\<close>: the offset after the field is returned and
  the length is the big-endian value of the \<open>n\<close> octets (stated for values below \<open>2^53\<close>,
  which the host's numbers hold exactly); when the \<open>n\<close> octets are not all there the
  result is \<open>null\<close>.
\<close>

theorem readLength_forms:
  assumes "rsize r = length (rbuf r)" and "off < rsize r"
  shows "(unat (rbuf r ! off) < 128 \<longrightarrow>
            readLength (Some off) r = (Value (off + 1), r\<lparr>rlen := unat (rbuf r ! off)\<rparr>))
       \<and> (unat (rbuf r ! off) = 128 \<longrightarrow>
            readLength (Some off) r = (Throw InvalidAsn1Error, r))
       \<and> (\<forall>n. unat (rbuf r ! off) = 128 + n \<and> 1 \<le> n \<and> off + 1 + n \<le> rsize r \<longrightarrow>
            (\<exists>len. readLength (Some off) r = (Value (off + 1 + n), r\<lparr>rlen := len\<rparr>)
               \<and> (be_nat (take n (drop (off + 1) (rbuf r))) < 2 ^ 53 \<longrightarrow>
                    len = be_nat (take n (drop (off + 1) (rbuf r))))))
       \<and> (\<forall>n. unat (rbuf r ! off) = 128 + n \<and> 1 \<le> n \<and> rsize r < off + 1 + n \<longrightarrow>
            readLength (Some off) r = (Null, r))"
  using readLength_cases [OF assms] by blast

theorem readLength_forms_witness:
  "rsize (Reader [0x30, 0x85, 0, 0, 0, 1, 2]) = length (rbuf (Reader [0x30, 0x85, 0, 0, 0, 1, 2]))
   \<and> 1 < rsize (Reader [0x30, 0x85, 0, 0, 0, 1, 2])
   \<and> readLength (Some 1) (Reader [0x30, 0x85, 0, 0, 0, 1, 2])
       = (Value 7, (Reader [0x30, 0x85, 0, 0, 0, 1, 2])\<lparr>rlen := 258\<rparr>)
   \<and> readLength (Some 1) (Reader [0x30, 0x7F]) = (Value 2, (Reader [0x30, 0x7F])\<lparr>rlen := 127\<rparr>)
   \<and> readLength (Some 1) (Reader [0x30, 0x80]) = (Throw InvalidAsn1Error, Reader [0x30, 0x80])
   \<and> readLength (Some 1) (Reader [0x30, 0x82, 1]) = (Null, Reader [0x30, 0x82, 1])"
proof -
  have wf: "rsize (Reader d) = length (rbuf (Reader d))" for d
    by (simp add: Reader_def)
  have a: "1 < rsize (Reader [0x30, 0x85, 0, 0, 0, 1, 2])"
    and b: "1 < rsize (Reader [0x30, 0x7F])" and c: "1 < rsize (Reader [0x30, 0x80])"
    and d: "1 < rsize (Reader [0x30, 0x82, 1])"
    by (simp_all add: Reader_def)
  have v: "be_nat (take 5 (drop (1 + 1) (rbuf (Reader [0x30, 0x85, 0, 0, 0, 1, 2])))) = 258"
    by (simp add: Reader_def be_nat_def)
  have u: "unat (rbuf (Reader [0x30, 0x85, 0, 0, 0, 1, 2]) ! 1) = 128 + 5
           \<and> (1::nat) \<le> 5 \<and> 1 + 1 + 5 \<le> rsize (Reader [0x30, 0x85, 0, 0, 0, 1, 2])"
    by (simp add: Reader_def)
  from readLength_forms [OF wf a] u
  obtain len where l: "readLength (Some 1) (Reader [0x30, 0x85, 0, 0, 0, 1, 2])
         = (Value (1 + 1 + 5), (Reader [0x30, 0x85, 0, 0, 0, 1, 2])\<lparr>rlen := len\<rparr>)"
    and "be_nat (take 5 (drop (1 + 1) (rbuf (Reader [0x30, 0x85, 0, 0, 0, 1, 2])))) < 2 ^ 53 \<longrightarrow>
         len = be_nat (take 5 (drop (1 + 1) (rbuf (Reader [0x30, 0x85, 0, 0, 0, 1, 2]))))"
    by blast
  then have "len = 258"
    unfolding v by simp
  with l show ?thesis
    using readLength_forms [OF wf b] readLength_forms [OF wf c] readLength_forms [OF wf d]
    by (simp add: Reader_def)
qed

section \<open>Integers: \<open>writeInt\<close> and \<open>readInt\<close>\<close>

lemma of_int_and_255: "(of_int (i AND 0xff) :: byte) = of_int i"
  by (simp add: and_255 word_of_int_eq_iff take_bit_eq_mod)

lemma sint_byte: "- 128 \<le> i \<Longrightarrow> i < 128 \<Longrightarrow> sint (of_int i :: byte) = i"
  by (simp add: sint_sbintrunc' signed_take_bit_int_eq_self)

lemma int_bytes_nonempty: "int_bytes i \<noteq> []"
  by (subst int_bytes.simps) simp

lemma be_int_snoc: "p \<noteq> [] \<Longrightarrow> be_int (p @ [b]) = be_int p * 256 + uint b"
  by (cases p) (simp_all add: be_int_def)

lemma be_int_int_bytes: "be_int (map of_int (rev (int_bytes i))) = i"
proof (induction i rule: int_bytes.induct)
  case (1 i)
  show ?case
  proof (cases "i < - 0x80 \<or> i \<ge> 0x80")
    case True
    have ne: "map of_int (rev (int_bytes (i div 0x100))) \<noteq> ([] :: byte list)"
      using int_bytes_nonempty by simp
    have "int_bytes i = (i AND 0xff) # int_bytes (i div 0x100)"
      using True by (subst int_bytes.simps) simp
    then show ?thesis
      using 1 [OF True] be_int_snoc [OF ne, of "of_int i"]
      by (simp add: of_int_and_255 uint_byte)
  next
    case False
    then have "int_bytes i = [i AND 0xff]"
      by (subst int_bytes.simps) simp
    then show ?thesis
      using False by (simp add: be_int_def of_int_and_255 sint_byte)
  qed
qed

lemma length_int_bytes_le: "fits m i \<Longrightarrow> 1 \<le> m \<Longrightarrow> length (int_bytes i) \<le> m"
proof (induction i arbitrary: m rule: int_bytes.induct)
  case (1 i)
  show ?case
  proof (cases "i < - 0x80 \<or> i \<ge> 0x80")
    case True
    have eq: "int_bytes i = (i AND 0xff) # int_bytes (i div 0x100)"
      using True by (subst int_bytes.simps) simp
    from True "1.prems" have "m \<noteq> 1"
      by (auto simp: fits_def)
    with "1.prems" obtain k where k: "m = Suc k" "1 \<le> k"
      by (cases m) auto
    have p: "(2::int) ^ (8 * m - 1) = 256 * 2 ^ (8 * k - 1)"
      using k by (cases k) (simp_all add: power_add)
    have d: "i = 256 * (i div 256) + i mod 256" "0 \<le> i mod 256" "i mod 256 < 256"
      by simp_all
    have "fits k (i div 0x100)"
      using "1.prems"(1) d unfolding fits_def p
      by linarith
    from "1.IH" [OF True this k(2)] show ?thesis
      using eq k by simp
  next
    case False
    then have "int_bytes i = [i AND 0xff]"
      by (subst int_bytes.simps) simp
    then show ?thesis
      using "1.prems" by simp
  qed
qed

lemma fits_length_int_bytes: "fits (length (int_bytes i)) i"
proof (induction i rule: int_bytes.induct)
  case (1 i)
  show ?case
  proof (cases "i < - 0x80 \<or> i \<ge> 0x80")
    case True
    have eq: "int_bytes i = (i AND 0xff) # int_bytes (i div 0x100)"
      using True by (subst int_bytes.simps) simp
    obtain k where k: "length (int_bytes (i div 0x100)) = Suc k"
      using int_bytes_nonempty [of "i div 0x100"] by (cases "int_bytes (i div 0x100)") auto
    have p: "(2::int) ^ (8 * Suc (Suc k) - 1) = 256 * 2 ^ (8 * Suc k - 1)"
      by (simp add: power_add)
    have d: "i = 256 * (i div 256) + i mod 256" "0 \<le> i mod 256" "i mod 256 < 256"
      by simp_all
    have "fits (Suc (Suc k)) i"
      using 1 [OF True] d unfolding fits_def k p
      by linarith
    then show ?thesis
      by (simp add: eq k)
  next
    case False
    then have "int_bytes i = [i AND 0xff]"
      by (subst int_bytes.simps) simp
    then show ?thesis
      using False by (simp add: fits_def)
  qed
qed

lemma value_fold:
  assumes "1 \<le> n" and "off + n \<le> length buf"
  shows "foldl (\<lambda>value i. value * 256 + uint (byte_at buf i)) (sint (byte_at buf off))
           [off + 1 ..< off + n] = be_int (take n (drop off buf))"
proof -
  have "take n (drop off buf) = map (byte_at buf) [off ..< off + n]"
    using assms(2) by (simp add: bytes_range)
  also have "[off ..< off + n] = off # [off + 1 ..< off + n]"
    using assms(1) by (simp add: upt_conv_Cons)
  finally show ?thesis
    by (simp add: be_int_def foldl_map)
qed

lemma wseq_Writer: "wseq (Writer sz gf) = []"
  by (simp add: Writer_def)

lemma writeInt_committed:
  assumes "room 0 w" and "woffset w \<le> wsize w * wgrowthFactor w"
  shows "committed (writeInt i tag w)
           = committed w @ of_int tag # of_nat (length (int_bytes i)) # map of_int (rev (int_bytes i))"
proof -
  let ?bs = "int_bytes i"
  let ?w1 = "ensure (2 + length ?bs) w"
  have r1: "room (Suc (Suc (length ?bs))) ?w1" and c1: "committed ?w1 = committed w"
    using ensure_room [OF assms, of "2 + length ?bs"] by simp_all
  let ?w2 = "put tag ?w1"
  have r2: "room (Suc (length ?bs)) ?w2" and c2: "committed ?w2 = committed w @ [of_int tag]"
    using put_room [OF r1, of tag] c1 by simp_all
  let ?w3 = "put (int (length ?bs)) ?w2"
  have r3: "room (length (rev ?bs) + 0) ?w3"
    and c3: "committed ?w3 = committed w @ [of_int tag, of_nat (length ?bs)]"
    using put_room [OF r2, of "int (length ?bs)"] c2 by simp_all
  have w: "writeInt i tag w = put_all (rev ?bs) ?w3"
    by (simp add: writeInt_def Let_def)
  show ?thesis
    using put_all_room [OF r3] c3 unfolding w by simp
qed

lemma writeInt_buffer:
  "buffer (writeInt i tag (Writer sz gf))
   = Inr (of_int tag # of_nat (length (int_bytes i)) # map of_int (rev (int_bytes i)))"
proof -
  have r0: "room 0 (Writer sz gf)"
    and le: "woffset (Writer sz gf) \<le> wsize (Writer sz gf) * wgrowthFactor (Writer sz gf)"
    by (simp_all add: room_def Writer_def)
  show ?thesis
    using writeInt_committed [OF r0 le, of i tag]
    by (simp add: buffer_def committed_def [symmetric] wseq_Writer)
qed

lemma readTag_value:
  assumes "1 \<le> length payload" and "length payload \<le> 127"
    and "tg = None \<or> tg = Some (uint t)"
  shows "fst (readTag tg (Reader (t # of_nat (length payload) # payload)))
         = (if isSafeInteger (be_int payload) then Value (be_int payload)
            else Throw InvalidAsn1Error)"
proof -
  let ?n = "length payload"
  let ?buf = "t # of_nat ?n # payload"
  let ?r = "Reader ?buf"
  have u: "unat (of_nat ?n :: byte) = ?n"
    using assms(2) by (simp add: unat_of_nat)
  have hi: "\<not> (?n AND 0x80 = 0x80)"
    using assms(2) nat_and_128 [of ?n] by simp
  have v: "foldl (\<lambda>value i. value * 256 + uint (byte_at ?buf i)) (sint (byte_at ?buf 2))
             [2 + 1 ..< 2 + ?n] = be_int payload"
    using assms(1) value_fold [of ?n 2 ?buf] by simp
  have p: "peek ?r = (Value (uint t), ?r)"
    by (simp add: peek_def readByte_def Reader_def byte_at_def)
  have l: "readLength (Some (roffset ?r + 1)) ?r = (Value 2, ?r\<lparr>rlen := ?n\<rparr>)"
    by (simp add: readLength_def Reader_def Let_def byte_at_def u hi)
  have f: "rbuf (?r\<lparr>rlen := ?n\<rparr>) = ?buf" "rsize (?r\<lparr>rlen := ?n\<rparr>) = 2 + ?n"
    "rlen (?r\<lparr>rlen := ?n\<rparr>) = ?n"
    by (simp_all add: Reader_def)
  show ?thesis
    unfolding readTag_def p l prod.case result.case f Let_def v
    using assms by auto
qed

lemma safe_fits: "isSafeInteger i \<Longrightarrow> fits 7 i"
  unfolding isSafeInteger_def fits_def by simp linarith

lemma int_bytes_examples:
  "int_bytes (- 1) = [0xFF]" "int_bytes 127 = [0x7F]" "int_bytes 128 = [0x80, 0]"
  "int_bytes (- 129) = [0x7F, 0xFF]"
  by (simp_all add: int_bytes.simps and_255)

text \<open>
  C1. For every safe integer \<open>i\<close>, \<open>writeInt\<close> on a fresh Writer gives the octets
  tag, length, payload, and \<open>readInt\<close> on a fresh Reader over those octets returns \<open>i\<close>.
  The payload has the least number of octets in which \<open>i\<close> has a two's-complement form.
  The integer -1 is written with the one payload octet \<open>FF\<close>, 127 with the one octet
  \<open>7F\<close>, 128 with the two octets \<open>00 80\<close>, and -129 with the two octets \<open>FF 7F\<close>.
\<close>

theorem writeInt_readInt_roundtrip:
  assumes "isSafeInteger i"
  shows "(\<exists>payload.
            buffer (writeInt i tag (Writer sz gf))
              = Inr (of_int tag # of_nat (length payload) # payload)
          \<and> fst (readInt None (Reader (of_int tag # of_nat (length payload) # payload)))
              = Value i
          \<and> fits (length payload) i
          \<and> (\<forall>m\<ge>1. fits m i \<longrightarrow> length payload \<le> m))
       \<and> buffer (writeInt (- 1) tag (Writer sz gf)) = Inr [of_int tag, 1, 0xFF]
       \<and> buffer (writeInt 127 tag (Writer sz gf)) = Inr [of_int tag, 1, 0x7F]
       \<and> buffer (writeInt 128 tag (Writer sz gf)) = Inr [of_int tag, 2, 0x00, 0x80]
       \<and> buffer (writeInt (- 129) tag (Writer sz gf)) = Inr [of_int tag, 2, 0xFF, 0x7F]"
proof -
  let ?p = "map of_int (rev (int_bytes i)) :: byte list"
  have len: "length ?p = length (int_bytes i)" by simp
  have b: "buffer (writeInt i tag (Writer sz gf)) = Inr (of_int tag # of_nat (length ?p) # ?p)"
    by (simp add: writeInt_buffer)
  have n1: "1 \<le> length ?p"
    using int_bytes_nonempty [of i] by (cases "int_bytes i") simp_all
  have n7: "length ?p \<le> 127"
    using length_int_bytes_le [OF safe_fits [OF assms]] by simp
  have "fst (readInt None (Reader (of_int tag # of_nat (length ?p) # ?p))) = Value i"
    unfolding readInt_def using readTag_value [OF n1 n7, of None "of_int tag"] assms
    by (simp add: be_int_int_bytes)
  moreover have "fits (length ?p) i"
    using fits_length_int_bytes [of i] by simp
  moreover have "\<forall>m\<ge>1. fits m i \<longrightarrow> length ?p \<le> m"
    using length_int_bytes_le [of _ i] by simp
  ultimately have "\<exists>payload.
            buffer (writeInt i tag (Writer sz gf))
              = Inr (of_int tag # of_nat (length payload) # payload)
          \<and> fst (readInt None (Reader (of_int tag # of_nat (length payload) # payload)))
              = Value i
          \<and> fits (length payload) i
          \<and> (\<forall>m\<ge>1. fits m i \<longrightarrow> length payload \<le> m)"
    using b by blast
  then show ?thesis
    by (simp add: writeInt_buffer int_bytes_examples)
qed

theorem writeInt_readInt_roundtrip_witness:
  "isSafeInteger (- 129)
   \<and> buffer (writeInt (- 129) 2 (Writer 1024 8)) = Inr [2, 2, 0xFF, 0x7F]
   \<and> fst (readInt None (Reader [2, 2, 0xFF, 0x7F])) = Value (- 129)"
proof -
  have s: "isSafeInteger (- 129)"
    by (simp add: isSafeInteger_def)
  from writeInt_readInt_roundtrip [OF s, of 2 1024 8]
  obtain payload where
    b: "buffer (writeInt (- 129) 2 (Writer 1024 8)) = Inr (2 # of_nat (length payload) # payload)"
    and r: "fst (readInt None (Reader (2 # of_nat (length payload) # payload))) = Value (- 129)"
    and e: "buffer (writeInt (- 129) 2 (Writer 1024 8)) = Inr [2, 2, 0xFF, 0x7F]"
    by auto
  from b e have "payload = [0xFF, 0x7F]"
    by simp
  with r s e show ?thesis
    by simp
qed

section \<open>Object identifiers: text and arcs\<close>

lemma digit_cases: "d < 10 \<Longrightarrow> d \<in> {0, 1, 2, 3, 4, 5, 6, 7, 8, 9::nat}"
  by auto

lemma digit_char_props:
  assumes "d < 10"
  shows "is_digit (digit_char d)" and "digit_val (digit_char d) = d"
    and "digit_char d \<noteq> CHR ''.''"
  using digit_cases [OF assms]
  by (auto simp: is_digit_def digit_char_def digit_val_def)

lemma radix_small: "n < 10 \<Longrightarrow> radix_string 10 n = [digit_char n]"
  by (subst radix_string.simps) simp

lemma radix_big:
  "\<not> n < 10 \<Longrightarrow> radix_string 10 n = radix_string 10 (n div 10) @ [digit_char (n mod 10)]"
  by (subst radix_string.simps) simp

lemma radix_digits: "radix_string 10 n \<noteq> [] \<and> list_all is_digit (radix_string 10 n)"
proof (induction n rule: less_induct)
  case (less n)
  show ?case
  proof (cases "n < 10")
    case True
    then show ?thesis
      by (simp add: radix_small digit_char_props)
  next
    case False
    then have "n div 10 < n" by simp
    from less [OF this] False show ?thesis
      by (simp add: radix_big digit_char_props)
  qed
qed

lemma parseInt_snoc: "parseInt (p @ [c]) = parseInt p * 10 + digit_val c"
  by (simp add: parseInt_def)

lemma parseInt_radix: "parseInt (radix_string 10 n) = n"
proof (induction n rule: less_induct)
  case (less n)
  show ?case
  proof (cases "n < 10")
    case True
    then show ?thesis
      by (simp add: radix_small parseInt_def digit_char_props)
  next
    case False
    then have "n div 10 < n" by simp
    from less [OF this] False show ?thesis
      by (simp add: radix_big parseInt_snoc digit_char_props)
  qed
qed

lemma split_dot_plain: "CHR ''.'' \<notin> set p \<Longrightarrow> split_dot p = [p]"
  by (induction p) auto

lemma split_dot_append:
  "CHR ''.'' \<notin> set p \<Longrightarrow> split_dot (p @ CHR ''.'' # s) = p # split_dot s"
  by (induction p) auto

lemma split_join:
  "ps \<noteq> [] \<Longrightarrow> \<forall>p \<in> set ps. CHR ''.'' \<notin> set p \<Longrightarrow> split_dot (join_dot ps) = ps"
proof (induction ps rule: join_dot.induct)
  case 1
  then show ?case by simp
next
  case (2 p)
  then show ?case by (simp add: split_dot_plain)
next
  case (3 p q ps)
  then show ?case by (simp add: split_dot_append)
qed

lemma is_digit_not_dot: "is_digit c \<Longrightarrow> c \<noteq> CHR ''.''"
  by (auto simp: is_digit_def)

lemma radix_no_dot: "CHR ''.'' \<notin> set (radix_string 10 n)"
  using radix_digits [of n] is_digit_not_dot by (auto simp: list_all_iff)

lemma split_dotted: "arcs \<noteq> [] \<Longrightarrow> split_dot (dotted arcs) = map (radix_string 10) arcs"
  unfolding dotted_def by (rule split_join) (auto simp: radix_no_dot)

lemma oid_regex_dotted: "arcs \<noteq> [] \<Longrightarrow> oid_regex (dotted arcs)"
  using radix_digits by (simp add: oid_regex_def split_dotted list_all_iff)

lemma dotted_example: "dotted [1, 2, 840, 113549] = ''1.2.840.113549''"
  by (simp add: dotted_def radix_big radix_small digit_char_def)

subsection \<open>One arc through \<open>encodeOctet\<close> and the loop of \<open>readOID\<close>\<close>

lemma byte_and_80: "((w::byte) AND 0x80 = 0) = (\<not> bit w 7)"
  using and_exp_eq_0_iff_not_bit [of w 7] by simp

lemma byte_and_7f: "(w::byte) AND 0x7f = take_bit 7 w"
  using take_bit_eq_mask [of 7 w] by (simp add: mask_eq_exp_minus_1)

lemma bit7_or: "bit (of_nat (x OR 0x80) :: byte) 7"
  by (simp add: bit_of_nat_iff bit_or_iff bit_simps)

lemma bit7_and: "\<not> bit (of_nat (x AND 0x7F) :: byte) 7"
  by (simp add: bit_of_nat_iff bit_and_iff bit_simps)

lemma low7_or: "ucast (take_bit 7 (of_nat (x OR 0x80) :: byte)) = (of_nat (x mod 128) :: 32 word)"
proof -
  have m: "x mod 128 = take_bit 7 x"
    by (simp add: take_bit_eq_mod)
  have b: "bit (128::nat) n = (n = 7)" for n
    using bit_exp_iff [of 7 n, where ?'a = nat] by simp
  show ?thesis
    unfolding m
    by (rule bit_word_eqI) (auto simp: bit_simps b)
qed

lemma low7_plain: "ucast (take_bit 7 (of_nat x :: byte)) = (of_nat (x mod 128) :: 32 word)"
proof -
  have m: "x mod 128 = take_bit 7 x"
    by (simp add: take_bit_eq_mod)
  show ?thesis
    unfolding m
    by (rule bit_word_eqI) (auto simp: bit_simps)
qed

lemma of_nat_and_ff: "(of_nat (y AND 0xFF) :: byte) = of_nat y"
proof -
  have "y AND 0xFF = take_bit 8 y"
    using take_bit_eq_mask [of 8 y] by (simp add: mask_eq_exp_minus_1)
  then show ?thesis
    by (simp only:) (rule bit_word_eqI, auto simp: bit_simps)
qed

lemma oid_cont:
  "oid_values (of_nat (x OR 0x80) # bs) v vals
   = oid_values bs (v * 128 + of_nat (x mod 128)) vals"
  by (simp add: byte_and_80 byte_and_7f bit7_or low7_or push_bit_eq_mult Let_def)

lemma oid_last:
  "oid_values (of_nat (x AND 0x7F) # bs) v vals
   = oid_values bs 0 (vals @ [unat (v * 128 + of_nat (x mod 128))])"
  using bit7_and [of x]
  by (simp add: byte_and_80 byte_and_7f low7_plain push_bit_eq_mult Let_def nat_and_127
      del: bit_of_nat_iff)

lemma ushr_div: "a < 2 ^ 32 \<Longrightarrow> ushr a k = a div 2 ^ k"
  by (simp add: ushr_def drop_bit_eq_div take_bit_nat_eq_self)

lemma d1: "(a::nat) div 128 * 128 + a mod 128 = a"
  by simp

lemma d2: "(a::nat) div 16384 * 128 + a div 128 mod 128 = a div 128"
  using div_mult_mod_eq [of "a div 128" 128] by (simp add: div_mult2_eq [symmetric])

lemma d3: "(a::nat) div 2097152 * 128 + a div 16384 mod 128 = a div 16384"
  using div_mult_mod_eq [of "a div 16384" 128] by (simp add: div_mult2_eq [symmetric])

lemma d4: "(a::nat) div 268435456 * 128 + a div 2097152 mod 128 = a div 2097152"
  using div_mult_mod_eq [of "a div 2097152" 128] by (simp add: div_mult2_eq [symmetric])

lemma oid_first:
  "oid_values (of_nat (x OR 0x80) # bs) 0 vals = oid_values bs (of_nat (x mod 128)) vals"
  by (simp add: oid_cont del: oid_values.simps)

lemma oid_next:
  "oid_values (of_nat (x OR 0x80) # bs) (of_nat n) vals
   = oid_values bs (of_nat (n * 128 + x mod 128)) vals"
  by (simp add: oid_cont del: oid_values.simps)

lemma oid_final:
  "oid_values (of_nat (x AND 0x7F) # bs) (of_nat n) vals
   = oid_values bs 0 (vals @ [(n * 128 + x mod 128) mod 2 ^ 32])"
proof -
  have "unat (of_nat n * 128 + of_nat (x mod 128) :: 32 word) = (n * 128 + x mod 128) mod 2 ^ 32"
    using unat_of_nat [of "n * 128 + x mod 128", where ?'a = 32] by simp
  then show ?thesis
    by (simp add: oid_last del: oid_values.simps)
qed

lemma oid_single:
  "oid_values (of_nat (x AND 0x7F) # bs) 0 vals = oid_values bs 0 (vals @ [x mod 128])"
  using oid_final [of x bs 0 vals] by simp

lemma arc_decode:
  assumes "a < 2 ^ 32"
  shows "oid_values (map of_nat (encodeOctet a) @ bs) 0 vals = oid_values bs 0 (vals @ [a])"
proof -
  have u: "ushr a k = a div 2 ^ k" for k
    using assms by (rule ushr_div)
  have a32: "a < 4294967296"
    using assms by simp
  consider "a < 128" | "128 \<le> a" "a < 16384" | "16384 \<le> a" "a < 2097152"
    | "2097152 \<le> a" "a < 268435456" | "268435456 \<le> a"
    by linarith
  then show ?thesis
  proof cases
    case 1
    then have enc: "map of_nat (encodeOctet a) = [of_nat (a AND 0x7F) :: byte]"
      by (simp add: encodeOctet_def nat_and_127)
    have n: "a mod 128 = a"
      using 1 by simp
    show ?thesis
      unfolding enc append_Cons append_Nil oid_single n ..
  next
    case 2
    then have enc: "map of_nat (encodeOctet a)
                    = [of_nat (a div 2 ^ 7 OR 0x80), of_nat (a AND 0x7F) :: byte]"
      by (simp add: encodeOctet_def u)
    have n: "((a div 2 ^ 7) mod 128 * 128 + a mod 128) mod 2 ^ 32 = a"
      using 2 by (simp add: d1)
    show ?thesis
      unfolding enc append_Cons append_Nil oid_first oid_final n ..
  next
    case 3
    then have enc: "map of_nat (encodeOctet a)
                    = [of_nat (a div 2 ^ 14 OR 0x80), of_nat (a div 2 ^ 7 OR 0x80),
                       of_nat (a AND 0x7F) :: byte]"
      by (simp add: encodeOctet_def u of_nat_and_ff)
    have n: "(((a div 2 ^ 14) mod 128 * 128 + (a div 2 ^ 7) mod 128) * 128 + a mod 128) mod 2 ^ 32
             = a"
      using 3 by (simp add: d1 d2)
    show ?thesis
      unfolding enc append_Cons append_Nil oid_first oid_next oid_final n ..
  next
    case 4
    then have enc: "map of_nat (encodeOctet a)
                    = [of_nat (a div 2 ^ 21 OR 0x80), of_nat (a div 2 ^ 14 OR 0x80),
                       of_nat (a div 2 ^ 7 OR 0x80), of_nat (a AND 0x7F) :: byte]"
      by (simp add: encodeOctet_def u of_nat_and_ff)
    have n: "((((a div 2 ^ 21) mod 128 * 128 + (a div 2 ^ 14) mod 128) * 128
                + (a div 2 ^ 7) mod 128) * 128 + a mod 128) mod 2 ^ 32 = a"
      using 4 by (simp add: d1 d2 d3)
    show ?thesis
      unfolding enc append_Cons append_Nil oid_first oid_next oid_final n ..
  next
    case 5
    then have enc: "map of_nat (encodeOctet a)
                    = [of_nat (a div 2 ^ 28 OR 0x80), of_nat (a div 2 ^ 21 OR 0x80),
                       of_nat (a div 2 ^ 14 OR 0x80),
                       of_nat (a div 2 ^ 7 OR 0x80), of_nat (a AND 0x7F) :: byte]"
      by (simp add: encodeOctet_def u of_nat_and_ff)
    have n: "(((((a div 2 ^ 28) mod 128 * 128 + (a div 2 ^ 21) mod 128) * 128
                + (a div 2 ^ 14) mod 128) * 128
                + (a div 2 ^ 7) mod 128) * 128 + a mod 128) mod 2 ^ 32 = a"
      using a32 by (simp add: d1 d2 d3 d4)
    show ?thesis
      unfolding enc append_Cons append_Nil oid_first oid_next oid_final n ..
  qed
qed

lemma arcs_decode:
  "\<forall>a \<in> set arcs. a < 2 ^ 32 \<Longrightarrow>
   oid_values (concat (map (\<lambda>a. map of_nat (encodeOctet a)) arcs) @ bs) 0 vals
   = oid_values bs 0 (vals @ arcs)"
proof (induction arcs arbitrary: vals)
  case Nil
  then show ?case by simp
next
  case (Cons a arcs)
  then show ?case
    by (simp add: arc_decode del: oid_values.simps)
qed

lemma oid_values_octets:
  assumes "first < 128" and "\<forall>a \<in> set arcs. a < 2 ^ 32"
  shows "oid_values (of_nat first # concat (map (\<lambda>a. map of_nat (encodeOctet a)) arcs)) 0 []
         = first # arcs"
proof -
  have f: "first = first AND 0x7F" "first mod 128 = first"
    using assms(1) by (simp_all add: nat_and_127)
  have "oid_values (of_nat (first AND 0x7F) # concat (map (\<lambda>a. map of_nat (encodeOctet a)) arcs) @ [])
          0 [] = first # arcs"
    unfolding oid_single using arcs_decode [OF assms(2), of "[]" "[first mod 128]"]
    by (simp add: f(2))
  then show ?thesis
    using f(1) by simp
qed

lemma oid_text_arcs: "a1 < 40 \<Longrightarrow> oid_text ((a0 * 40 + a1) # rest) = dotted (a0 # a1 # rest)"
  by (simp add: oid_text_def dotted_def)

section \<open>Tag, length and value through the Writer and the Reader\<close>

lemma writer_ok_room: "room n w \<Longrightarrow> 1 \<le> wgrowthFactor w \<Longrightarrow> writer_ok w"
  by (simp add: writer_ok_def room_def)

lemma ensure_writer_ok: "writer_ok w \<Longrightarrow> writer_ok (ensure n w)"
  using ensure_ok(1,5) [of w n] room_mono [of n "ensure n w" 0] by (auto simp: writer_ok_def)

lemma writeByte_ok:
  assumes "writer_ok w"
  shows "writer_ok (writeByte b w)" and "committed (writeByte b w) = committed w @ [of_int b]"
proof -
  have r: "room (Suc 0) (ensure 1 w)" and c: "committed (ensure 1 w) = committed w"
    and g: "wgrowthFactor (ensure 1 w) = wgrowthFactor w"
    using ensure_ok [OF assms, of 1] by simp_all
  show "writer_ok (writeByte b w)"
    unfolding writeByte_def
    using put_room(1,5) [OF r, of b] g assms
    by (auto intro: writer_ok_room simp: writer_ok_def)
  show "committed (writeByte b w) = committed w @ [of_int b]"
    unfolding writeByte_def using put_room(2) [OF r, of b] c by simp
qed

lemma fold_writeByte_ok:
  "writer_ok w \<Longrightarrow>
   writer_ok (fold writeByte bs w) \<and> committed (fold writeByte bs w) = committed w @ map of_int bs"
proof (induction bs arbitrary: w)
  case Nil
  then show ?case by simp
next
  case (Cons b bs)
  show ?case
    using Cons.IH [OF writeByte_ok(1) [OF Cons.prems, of b]] writeByte_ok(2) [OF Cons.prems, of b]
    by simp
qed

lemma writeLength_committed:
  assumes "writer_ok w" and "n \<le> 0xFFFFFF"
  shows "fst (writeLength (int n) w) = None"
    and "writer_ok (snd (writeLength (int n) w))"
    and "committed (snd (writeLength (int n) w)) = committed w @ length_field n"
proof -
  let ?w = "ensure 4 w"
  have r4: "room 4 ?w" and c: "committed ?w = committed w"
    and g: "wgrowthFactor ?w = wgrowthFactor w"
    using ensure_ok [OF assms(1), of 4] by simp_all
  have g1: "1 \<le> wgrowthFactor w"
    using assms(1) by (simp add: writer_ok_def)
  have pa: "room (length vs + (4 - length vs)) ?w" if "length vs \<le> 4" for vs :: "int list"
    using r4 that by simp
  have ok: "writer_ok (put_all vs ?w)"
    and cm: "committed (put_all vs ?w) = committed w @ map of_int vs"
    if "length vs \<le> 4" for vs
    using put_all_room [OF pa [OF that]] c g g1 by (auto intro: writer_ok_room)
  have e: "snd (writeLength (int n) w) =
     (if n \<le> 0x7F then put_all [int n] ?w
      else if n \<le> 0xFF then put_all [0x81, int n] ?w
      else if n \<le> 0xFFFF then put_all [0x82, drop_bit 8 (int n), int n] ?w
      else put_all [0x83, drop_bit 16 (int n), drop_bit 8 (int n), int n] ?w)"
    using assms(2) by (simp add: writeLength_def Let_def)
  have d8: "(of_int (drop_bit 8 (int n)) :: byte) = of_nat (n div 256)"
    and d16: "(of_int (drop_bit 16 (int n)) :: byte) = of_nat (n div 65536)"
  proof -
    have "int n div 256 = int (n div 256)" "int n div 65536 = int (n div 65536)"
      by (simp_all add: zdiv_int)
    then show "(of_int (drop_bit 8 (int n)) :: byte) = of_nat (n div 256)"
      and "(of_int (drop_bit 16 (int n)) :: byte) = of_nat (n div 65536)"
      by (simp_all add: drop_bit_eq_div)
  qed
  show "fst (writeLength (int n) w) = None"
    using assms(2) by (simp add: writeLength_def Let_def)
  show "writer_ok (snd (writeLength (int n) w))"
    unfolding e by (simp add: ok del: put_all.simps)
  show "committed (snd (writeLength (int n) w)) = committed w @ length_field n"
    unfolding e by (simp add: cm length_field_def d8 d16 del: put_all.simps)
qed

lemma length_encodeOctet: "length (encodeOctet a) \<le> 5"
  by (simp add: encodeOctet_def)

lemma length_concat_encodeOctet: "length (concat (map encodeOctet arcs)) \<le> 5 * length arcs"
proof (induction arcs)
  case Nil
  then show ?case by simp
next
  case (Cons a arcs)
  then show ?case
    using length_encodeOctet [of a] by simp
qed

lemma writeOID_dotted:
  assumes "writer_ok w" and "5 * length rest < 0xFFFFFF"
  shows "fst (writeOID (dotted (a0 # a1 # rest)) tag w) = None"
    and "committed (snd (writeOID (dotted (a0 # a1 # rest)) tag w))
         = committed w @ of_int tag
             # length_field (Suc (length (concat (map encodeOctet rest))))
             @ of_nat (a0 * 40 + a1) # concat (map (\<lambda>a. map of_nat (encodeOctet a)) rest)"
proof -
  let ?octets = "concat (map encodeOctet rest)"
  let ?bytes = "int (a0 * 40 + a1) # map int ?octets"
  let ?w1 = "writeByte tag (ensure (2 + length ?bytes) w)"
  have n: "length ?bytes \<le> 0xFFFFFF"
    using length_concat_encodeOctet [of rest] assms(2) by simp
  have ok1: "writer_ok ?w1" and c1: "committed ?w1 = committed w @ [of_int tag]"
    using writeByte_ok [OF ensure_writer_ok [OF assms(1), of "2 + length ?bytes"], of tag]
      ensure_ok(2) [OF assms(1), of "2 + length ?bytes"]
    by simp_all
  note wl = writeLength_committed [OF ok1 n]
  obtain w2 where w2: "writeLength (int (length ?bytes)) ?w1 = (None, w2)"
    using wl(1) by (cases "writeLength (int (length ?bytes)) ?w1") simp
  have ok2: "writer_ok w2"
    and c2: "committed w2 = committed w @ of_int tag # length_field (length ?bytes)"
    using wl(2,3) c1 unfolding w2 by simp_all
  have tmp: "split_dot (dotted (a0 # a1 # rest)) = map (radix_string 10) (a0 # a1 # rest)"
    by (rule split_dotted) simp
  have first: "(case map (radix_string 10) (a0 # a1 # rest) of
                  a # b # _ \<Rightarrow> int (parseInt a * 40 + parseInt b)
                | _ \<Rightarrow> 0) = int (a0 * 40 + a1)"
    by (simp add: parseInt_radix)
  have octs: "concat (map (\<lambda>b. encodeOctet (parseInt b))
                (drop 2 (map (radix_string 10) (a0 # a1 # rest)))) = ?octets"
    by (simp add: parseInt_radix comp_def)
  have rg: "oid_regex (dotted (a0 # a1 # rest))"
    by (rule oid_regex_dotted) simp
  have e: "writeOID (dotted (a0 # a1 # rest)) tag w = (None, fold writeByte ?bytes w2)"
    unfolding writeOID_def Let_def tmp first octs
    by (simp only: rg w2 not_True_eq_False if_False prod.case option.case)
  have mm: "map of_int ?bytes
            = (of_nat (a0 * 40 + a1) # concat (map (\<lambda>a. map of_nat (encodeOctet a)) rest)
                :: byte list)"
    by (simp add: map_concat comp_def)
  show "fst (writeOID (dotted (a0 # a1 # rest)) tag w) = None"
    by (simp only: e fst_conv)
  have "committed (snd (writeOID (dotted (a0 # a1 # rest)) tag w))
        = committed w2 @ map of_int ?bytes"
    unfolding e snd_conv using fold_writeByte_ok [OF ok2, of ?bytes] by (rule conjunct2)
  then show "committed (snd (writeOID (dotted (a0 # a1 # rest)) tag w))
         = committed w @ of_int tag
             # length_field (Suc (length ?octets))
             @ of_nat (a0 * 40 + a1) # concat (map (\<lambda>a. map of_nat (encodeOctet a)) rest)"
    unfolding mm c2 by simp
qed

lemma unat_byte: "n < 256 \<Longrightarrow> unat (of_nat n :: byte) = n"
  by (simp add: unat_of_nat)

lemma unat_byte_mod: "unat (of_nat n :: byte) = n mod 256"
  by (simp add: unat_of_nat)

lemma be2: "n \<le> 0xFFFF \<Longrightarrow> (n div 256) mod 256 * 256 + n mod 256 = (n::nat)"
  by simp

lemma be3: "n \<le> 0xFFFFFF \<Longrightarrow>
    ((n div 65536) mod 256 * 256 + (n div 256) mod 256) * 256 + n mod 256 = (n::nat)"
proof -
  assume "n \<le> 0xFFFFFF"
  then have a: "n div 65536 mod 256 = n div 65536"
    by simp
  have b: "n div 65536 * 256 + n div 256 mod 256 = n div 256"
    using div_mult_mod_eq [of "n div 256" 256] by (simp add: div_mult2_eq [symmetric])
  show ?thesis
    unfolding a b by simp
qed

lemma readLength_field:
  assumes "rsize r = length (rbuf r)" and "drop off (rbuf r) = length_field n @ rest"
    and "n \<le> 0xFFFFFF"
  shows "readLength (Some off) r = (Value (off + length (length_field n)), r\<lparr>rlen := n\<rparr>)"
proof -
  have ne: "length_field n \<noteq> []"
    by (simp add: length_field_def)
  have off: "off < rsize r"
    using assms(1,2) ne by (cases "off < length (rbuf r)") simp_all
  have len: "off + length (length_field n) + length rest = rsize r"
    using arg_cong [OF assms(2), of length] assms(1) off by simp
  have hd: "rbuf r ! off = hd (length_field n)"
    using assms(2) ne off assms(1) by (simp add: hd_drop_conv_nth [symmetric])
  have tl: "drop (Suc off) (rbuf r) = tl (length_field n) @ rest"
    using assms(2) ne by (simp add: drop_Suc tl_drop [symmetric])
  note rc = readLength_cases [OF assms(1) off]
  consider "n \<le> 0x7F" | "0x7F < n" "n \<le> 0xFF" | "0xFF < n" "n \<le> 0xFFFF"
    | "0xFFFF < n"
    by linarith
  then show ?thesis
  proof cases
    case 1
    then have f: "length_field n = [of_nat n]"
      by (simp add: length_field_def)
    have "unat (rbuf r ! off) = n"
      using 1 by (simp add: hd f unat_byte)
    with rc 1 show ?thesis
      by (simp add: f)
  next
    case 2
    then have f: "length_field n = [0x81, of_nat n]"
      by (simp add: length_field_def)
    have u: "unat (rbuf r ! off) = 128 + 1"
      by (simp add: hd f)
    have v: "be_nat (take 1 (drop (off + 1) (rbuf r))) = n"
      using 2 by (simp add: tl f be_nat_def unat_byte)
    from rc u len v show ?thesis
      by (simp add: f)
  next
    case 3
    then have f: "length_field n = [0x82, of_nat (n div 256), of_nat n]"
      by (simp add: length_field_def)
    have u: "unat (rbuf r ! off) = 128 + 2"
      by (simp add: hd f)
    have v: "be_nat (take 2 (drop (off + 1) (rbuf r))) = n"
      using 3 by (simp add: tl f be_nat_def unat_byte_mod be2)
    from rc u len v show ?thesis
      by (simp add: f)
  next
    case 4
    then have f: "length_field n = [0x83, of_nat (n div 65536), of_nat (n div 256), of_nat n]"
      by (simp add: length_field_def)
    have u: "unat (rbuf r ! off) = 128 + 3"
      by (simp add: hd f)
    have v: "be_nat (take 3 (drop (off + 1) (rbuf r))) = n"
      using assms(3) be3 [of n] by (simp add: tl f be_nat_def unat_byte_mod)
    from rc u len v show ?thesis
      by (simp add: f)
  qed
qed

lemma readBuffer_tlv:
  assumes "length payload \<le> 0xFFFFFF"
  shows "fst (readBuffer (uint t) (Reader (t # length_field (length payload) @ payload)))
         = Value payload"
proof -
  let ?n = "length payload"
  let ?k = "length (length_field ?n)"
  let ?buf = "t # length_field ?n @ payload"
  let ?r = "Reader ?buf"
  have p: "peek ?r = (Value (uint t), ?r)"
    by (simp add: peek_def readByte_def Reader_def byte_at_def)
  have wf: "rsize ?r = length (rbuf ?r)" and d: "drop (roffset ?r + 1) (rbuf ?r) = length_field ?n @ payload"
    by (simp_all add: Reader_def)
  have l: "readLength (Some (roffset ?r + 1)) ?r
           = (Value (roffset ?r + 1 + ?k), ?r\<lparr>rlen := ?n\<rparr>)"
    using readLength_field [OF wf d assms] .
  have f: "rbuf (?r\<lparr>rlen := ?n\<rparr>) = ?buf" "rsize (?r\<lparr>rlen := ?n\<rparr>) = 1 + ?k + ?n"
    "rlen (?r\<lparr>rlen := ?n\<rparr>) = ?n" "roffset ?r = 0"
    by (simp_all add: Reader_def)
  show ?thesis
    unfolding readBuffer_def p l prod.case result.case Let_def
    by (simp add: f subarray_def Reader_def)
qed

lemma readOID_tlv:
  assumes "length payload \<le> 0xFFFFFF" and "tag = uint t" and "tag \<noteq> 0"
  shows "fst (readOID tag (Reader (t # length_field (length payload) @ payload)))
         = Value (oid_text (oid_values payload 0 []))"
proof -
  let ?r = "Reader (t # length_field (length payload) @ payload)"
  obtain r' where b: "readBuffer tag ?r = (Value payload, r')"
    using readBuffer_tlv [OF assms(1), of t] assms(2)
    by (cases "readBuffer tag ?r") simp
  show ?thesis
    using assms(3) by (simp add: readOID_def readString_def b)
qed

lemma length_octets_bytes:
  "length (concat (map (\<lambda>a. map f (encodeOctet a)) rest)) = length (concat (map encodeOctet rest))"
  by (induction rest) simp_all

lemma writeOID_buffer:
  assumes "5 * length rest < 0xFFFFFF" and "1 \<le> gf"
  shows "fst (writeOID (dotted (a0 # a1 # rest)) tag (Writer sz gf)) = None"
    and "buffer (snd (writeOID (dotted (a0 # a1 # rest)) tag (Writer sz gf)))
         = Inr (of_int tag
                # length_field (Suc (length (concat (map encodeOctet rest))))
                @ of_nat (a0 * 40 + a1) # concat (map (\<lambda>a. map of_nat (encodeOctet a)) rest))"
proof -
  have ok: "writer_ok (Writer sz gf)"
    using assms(2) by (rule writer_ok_Writer)
  note w = writeOID_dotted [OF ok assms(1), of a0 a1 tag]
  show "fst (writeOID (dotted (a0 # a1 # rest)) tag (Writer sz gf)) = None"
    by (rule w(1))
  show "buffer (snd (writeOID (dotted (a0 # a1 # rest)) tag (Writer sz gf)))
         = Inr (of_int tag
                # length_field (Suc (length (concat (map encodeOctet rest))))
                @ of_nat (a0 * 40 + a1) # concat (map (\<lambda>a. map of_nat (encodeOctet a)) rest))"
    unfolding buffer_def committed_def [symmetric] w(2) by (simp add: wseq_Writer)
qed

text \<open>
  Where the round trip holds in the code: for the dotted-decimal text, without leading
  zeros, of arcs \<open>a0.a1.rest\<close> whose first two arcs make a value \<open>40 * a0 + a1\<close> that the
  one stored octet holds and the split by 40 gives back (\<open>a1 < 40\<close>, value below 128),
  with every further arc below \<open>2^32\<close>.
\<close>

lemma oid_roundtrip_arcs:
  assumes "a1 < 40" and "a0 * 40 + a1 < 128" and "\<forall>a \<in> set rest. a < 2 ^ 32"
    and "5 * length rest < 0xFFFFFF" and "1 \<le> tag" and "tag \<le> 255" and "1 \<le> gf"
  shows "fst (writeOID (dotted (a0 # a1 # rest)) tag (Writer sz gf)) = None
       \<and> (\<exists>bs. buffer (snd (writeOID (dotted (a0 # a1 # rest)) tag (Writer sz gf))) = Inr bs
             \<and> fst (readOID tag (Reader bs)) = Value (dotted (a0 # a1 # rest)))"
proof -
  let ?s = "dotted (a0 # a1 # rest)"
  let ?payload = "of_nat (a0 * 40 + a1) # concat (map (\<lambda>a. map of_nat (encodeOctet a)) rest)
                  :: byte list"
  let ?bs = "of_int tag # length_field (length ?payload) @ ?payload"
  have lp: "length ?payload = Suc (length (concat (map encodeOctet rest)))"
    by (simp add: length_octets_bytes)
  have b: "buffer (snd (writeOID ?s tag (Writer sz gf))) = Inr ?bs"
    unfolding lp by (rule writeOID_buffer(2) [OF assms(4,7)])
  have n: "length ?payload \<le> 0xFFFFFF"
    using length_concat_encodeOctet [of rest] assms(4) unfolding lp by simp
  have t: "tag = uint (of_int tag :: byte)" "tag \<noteq> 0"
    using assms(5,6) by (simp_all add: uint_byte)
  have "fst (readOID tag (Reader ?bs)) = Value (oid_text (oid_values ?payload 0 []))"
    using readOID_tlv [OF n t] .
  also have "oid_values ?payload 0 [] = (a0 * 40 + a1) # rest"
    using oid_values_octets [OF assms(2,3)] .
  also have "oid_text ((a0 * 40 + a1) # rest) = ?s"
    using assms(1) by (rule oid_text_arcs)
  finally show ?thesis
    using writeOID_buffer(1) [OF assms(4,7)] b by blast
qed

lemma oid_roundtrip_example:
  "fst (writeOID ''1.2.840.113549'' 6 (Writer 1024 8)) = None
   \<and> buffer (snd (writeOID ''1.2.840.113549'' 6 (Writer 1024 8)))
       = Inr [6, 6, 0x2A, 0x86, 0x48, 0x86, 0xF7, 0x0D]
   \<and> fst (readOID 6 (Reader [6, 6, 0x2A, 0x86, 0x48, 0x86, 0xF7, 0x0D]))
       = Value ''1.2.840.113549''"
proof -
  have enc: "encodeOctet 840 = [134, 72]" "encodeOctet 113549 = [134, 247, 13]"
    by (simp_all add: encodeOctet_def ushr_def)
  have e: "buffer (snd (writeOID ''1.2.840.113549'' 6 (Writer 1024 8)))
       = Inr [6, 6, 0x2A, 0x86, 0x48, 0x86, 0xF7, 0x0D]"
    using writeOID_buffer(2) [of "[840, 113549]" 8 1 2 6 1024] unfolding dotted_example
    by (simp add: enc length_field_def)
  have "(2::nat) < 40" "1 * 40 + 2 < (128::nat)" "\<forall>a \<in> set [840, 113549::nat]. a < 2 ^ 32"
    "5 * length [840, 113549::nat] < 0xFFFFFF" "(1::int) \<le> 6" "(6::int) \<le> 255" "(1::nat) \<le> 8"
    by simp_all
  from oid_roundtrip_arcs [OF this, of 1024] e show ?thesis
    unfolding dotted_example by auto
qed

text \<open>
  The arcs are parsed with \<open>parseInt\<close> and printed with \<open>join\<close>, so a leading zero of an
  arc is not read back.
\<close>

lemma oid_leading_zero:
  "buffer (snd (writeOID ''01.2'' 6 (Writer 1024 8))) = Inr [6, 1, 42]
   \<and> fst (readOID 6 (Reader [6, 1, 42])) = Value ''1.2''"
  by code_simp

text \<open>
  C5: every valid dotted-decimal OID string with arcs in 32-bit range is read back
  unchanged by \<open>readOID\<close> from the output of \<open>writeOID\<close>. The code does not do this.
  \<open>writeOID\<close> pushes \<open>40 * arc0 + arc1\<close> as it is and stores it with \<open>writeByte\<close>, which
  keeps it modulo 256, where every later arc goes through \<open>encodeOctet\<close>:

  \<^item> \<open>2.999\<close> is accepted and written as the one octet 55 (1079 modulo 256), which
    \<open>readOID\<close> reads as \<open>1.15\<close>;
  \<^item> \<open>4.0\<close> is accepted and written as the one octet 160, a continuation octet without
    an end, which \<open>readOID\<close> reads as \<open>0.NaN\<close>; \<open>encodeOctet\<close> gives \<open>81 20\<close> for 160, and
    \<open>readOID\<close> reads the first value \<open>81 20\<close> as \<open>4.0\<close>;
  \<^item> the single arc \<open>5\<close> passes the grammar test, the missing second arc makes the
    number \<open>NaN\<close>, stored as 0, and \<open>readOID\<close> reads \<open>0.0\<close>.

  The example of the claim, \<open>1.2.840.113549\<close>, is read back unchanged.
\<close>

theorem writeOID_first_arcs_raw:
  "fst (writeOID ''2.999'' 6 (Writer 1024 8)) = None
   \<and> buffer (snd (writeOID ''2.999'' 6 (Writer 1024 8))) = Inr [6, 1, 55]
   \<and> fst (readOID 6 (Reader [6, 1, 55])) = Value ''1.15''
   \<and> fst (writeOID ''4.0'' 6 (Writer 1024 8)) = None
   \<and> buffer (snd (writeOID ''4.0'' 6 (Writer 1024 8))) = Inr [6, 1, 160]
   \<and> fst (readOID 6 (Reader [6, 1, 160])) = Value ''0.NaN''
   \<and> fst (readOID 6 (Reader [6, 2, 0x81, 0x20])) = Value ''4.0''
   \<and> fst (writeOID ''5'' 6 (Writer 1024 8)) = None
   \<and> buffer (snd (writeOID ''5'' 6 (Writer 1024 8))) = Inr [6, 1, 0]
   \<and> fst (readOID 6 (Reader [6, 1, 0])) = Value ''0.0''
   \<and> encodeOctet 160 = [0x81, 0x20]
   \<and> buffer (snd (writeOID ''1.2.840.113549'' 6 (Writer 1024 8)))
       = Inr [6, 6, 0x2A, 0x86, 0x48, 0x86, 0xF7, 0x0D]
   \<and> fst (readOID 6 (Reader [6, 6, 0x2A, 0x86, 0x48, 0x86, 0xF7, 0x0D]))
       = Value ''1.2.840.113549''"
proof -
  have "fst (writeOID ''2.999'' 6 (Writer 1024 8)) = None
   \<and> buffer (snd (writeOID ''2.999'' 6 (Writer 1024 8))) = Inr [6, 1, 55]
   \<and> fst (readOID 6 (Reader [6, 1, 55])) = Value ''1.15''
   \<and> fst (writeOID ''4.0'' 6 (Writer 1024 8)) = None
   \<and> buffer (snd (writeOID ''4.0'' 6 (Writer 1024 8))) = Inr [6, 1, 160]
   \<and> fst (readOID 6 (Reader [6, 1, 160])) = Value ''0.NaN''
   \<and> fst (readOID 6 (Reader [6, 2, 0x81, 0x20])) = Value ''4.0''
   \<and> fst (writeOID ''5'' 6 (Writer 1024 8)) = None
   \<and> buffer (snd (writeOID ''5'' 6 (Writer 1024 8))) = Inr [6, 1, 0]
   \<and> fst (readOID 6 (Reader [6, 1, 0])) = Value ''0.0''"
    by code_simp
  moreover have "encodeOctet 160 = [0x81, 0x20]"
    by (simp add: encodeOctet_def ushr_def)
  ultimately show ?thesis
    using oid_roundtrip_example by blast
qed

section \<open>What \<open>endSequence\<close> does when the Buffer has room\<close>

lemma length_buffer_copy [simp]: "length (buffer_copy src tgt ts ss se) = length tgt"
  by (auto simp: buffer_copy_def Let_def min_def)

lemma buffer_copy_take:
  assumes "ss \<le> se" and "se \<le> length src" and "ts + (se - ss) \<le> length tgt"
  shows "take (ts + (se - ss)) (buffer_copy src tgt ts ss se)
         = take ts tgt @ take (se - ss) (drop ss src)"
proof (cases "ts \<ge> length tgt \<or> ss \<ge> se")
  case True
  then show ?thesis
    using assms by (auto simp: buffer_copy_def)
next
  case False
  have nb: "min (min (se - ss) (length tgt - ts)) (length src - ss) = se - ss"
    using assms by simp
  have l: "length (take (se - ss) (drop ss src)) = se - ss"
    using assms by simp
  show ?thesis
    using False assms unfolding buffer_copy_def Let_def nb l
    by simp
qed

lemma overwrite_1:
  "length H = 1 \<Longrightarrow> length A = n \<Longrightarrow> (A @ H @ P)[n := v] = A @ [v] @ P"
  by (cases H) (simp_all add: list_update_append)

lemma overwrite_2:
  "length H = 2 \<Longrightarrow> length A = n \<Longrightarrow> (A @ H @ P)[n := v1, n + 1 := v2] = A @ [v1, v2] @ P"
  by (cases H; cases "tl H") (simp_all add: list_update_append)

lemma overwrite_3:
  "length H = 3 \<Longrightarrow> length A = n \<Longrightarrow>
   (A @ H @ P)[n := v1, n + 1 := v2, n + 2 := v3] = A @ [v1, v2, v3] @ P"
  by (cases H; cases "tl H"; cases "tl (tl H)") (simp_all add: list_update_append)

lemma overwrite_4:
  "length H = 4 \<Longrightarrow> length A = n \<Longrightarrow>
   (A @ H @ P)[n := v1, n + 1 := v2, n + 2 := v3, n + 3 := v4] = A @ [v1, v2, v3, v4] @ P"
  by (cases H; cases "tl H"; cases "tl (tl H)"; cases "tl (tl (tl H))")
    (simp_all add: list_update_append)

lemma of_int_drop_bit:
  "(of_int (drop_bit 8 (int n)) :: byte) = of_nat (n div 256)"
  "(of_int (drop_bit 16 (int n)) :: byte) = of_nat (n div 65536)"
proof -
  have "int n div 256 = int (n div 256)" "int n div 65536 = int (n div 65536)"
    by (simp_all add: zdiv_int)
  then show "(of_int (drop_bit 8 (int n)) :: byte) = of_nat (n div 256)"
    and "(of_int (drop_bit 16 (int n)) :: byte) = of_nat (n div 65536)"
    by (simp_all add: drop_bit_eq_div)
qed

lemma endSequence_layout:
  assumes r: "room 0 w" and s: "wseq w = seq # rest" and o: "seq + 3 \<le> woffset w"
    and fit: "woffset w - (seq + 3) \<le> 0xFFFFFF"
    and free: "0xFFFF < woffset w - (seq + 3) \<Longrightarrow> woffset w < wsize w"
  shows "fst (endSequence w) = None"
    and "committed (snd (endSequence w))
         = take seq (committed w) @ length_field (woffset w - (seq + 3))
           @ drop (seq + 3) (committed w)"
    and "wseq (snd (endSequence w)) = rest"
    and "room 0 (snd (endSequence w))"
proof -
  define n where "n = woffset w - (seq + 3)"
  let ?buf = "wbuf w"
  let ?A = "take seq ?buf"
  let ?P = "take n (drop (seq + 3) ?buf)"
  have off: "woffset w = seq + 3 + n"
    using o by (simp add: n_def)
  have lb: "length ?buf = wsize w" and ol: "seq + 3 + n \<le> length ?buf"
    using r by (simp_all add: room_def off)
  have lA: "length ?A = seq"
    using ol by simp
  have cA: "take seq (committed w) = ?A"
    by (simp add: committed_def off min_def)
  have cP: "drop (seq + 3) (committed w) = ?P"
    by (simp add: committed_def off drop_take)
  have H: "take (seq + k) ?buf = ?A @ take k (drop seq ?buf)" for k
    by (simp add: take_add)
  have lH: "length (take k (drop seq ?buf)) = k" if "seq + k \<le> length ?buf" for k
    using that by simp
  have moved: "take (seq + k + n) (buffer_copy ?buf ?buf (seq + k) (seq + 3) (seq + 3 + n))
               = ?A @ take k (drop seq ?buf) @ ?P"
    if "seq + k + n \<le> length ?buf" for k
    using buffer_copy_take [of "seq + 3" "seq + 3 + n" ?buf "seq + k" ?buf] that ol
    by (simp add: H)
  have fit': "n \<le> 0xFFFFFF"
    using fit by (simp add: n_def)
  consider "n \<le> 0x7F" | "0x7F < n" "n \<le> 0xFF" | "0xFF < n" "n \<le> 0xFFFF"
    | "0xFFFF < n"
    by linarith
  then have "fst (endSequence w) = None
      \<and> committed (snd (endSequence w)) = ?A @ length_field n @ ?P
      \<and> wseq (snd (endSequence w)) = rest \<and> room 0 (snd (endSequence w))"
  proof cases
    case 1
    have k: "seq + 1 + n \<le> length ?buf" "seq + 1 \<le> length ?buf"
      using ol by linarith+
    have e: "endSequence w = (None, w\<lparr>wseq := rest,
        wbuf := (buffer_copy ?buf ?buf (seq + 1) (seq + 3) (seq + 3 + n))[seq := of_nat n],
        woffset := seq + 1 + n\<rparr>)"
      using 1 unfolding endSequence_def s list.case Let_def shift_def
      by (simp add: off nat_add_distrib nat_diff_distrib)
    have c: "committed (snd (endSequence w)) = ?A @ [of_nat n] @ ?P"
      unfolding e snd_conv committed_def
      using moved [OF k(1)] overwrite_1 [OF lH [OF k(2)] lA, of ?P "of_nat n"]
      by (simp add: take_update_swap)
    show ?thesis
      using 1 c lb k by (simp add: e length_field_def room_def)
  next
    case 2
    have k: "seq + 2 + n \<le> length ?buf" "seq + 2 \<le> length ?buf"
      using ol by linarith+
    have e: "endSequence w = (None, w\<lparr>wseq := rest,
        wbuf := (buffer_copy ?buf ?buf (seq + 2) (seq + 3) (seq + 3 + n))
                  [seq := 0x81, seq + 1 := of_nat n],
        woffset := seq + 2 + n\<rparr>)"
      using 2 unfolding endSequence_def s list.case Let_def shift_def
      by (simp add: off nat_add_distrib nat_diff_distrib)
    have c: "committed (snd (endSequence w)) = ?A @ [0x81, of_nat n] @ ?P"
      unfolding e snd_conv committed_def
      using moved [OF k(1)] overwrite_2 [OF lH [OF k(2)] lA, of ?P "0x81" "of_nat n"]
      by (simp add: take_update_swap)
    show ?thesis
      using 2 c lb k by (simp add: e length_field_def room_def)
  next
    case 3
    have k: "seq + 3 + n \<le> length ?buf" "seq + 3 \<le> length ?buf"
      using ol by linarith+
    have e: "endSequence w = (None, w\<lparr>wseq := rest,
        wbuf := ?buf[seq := 0x82, seq + 1 := of_nat (n div 256), seq + 2 := of_nat n]\<rparr>)"
      using 3 unfolding endSequence_def s list.case Let_def
      by (simp add: off of_int_drop_bit)
    have t: "take (woffset w) ?buf = ?A @ take 3 (drop seq ?buf) @ ?P"
      by (simp only: off take_add append_assoc)
    have c: "committed (snd (endSequence w)) = ?A @ [0x82, of_nat (n div 256), of_nat n] @ ?P"
      unfolding e snd_conv committed_def
      using t overwrite_3 [OF lH [OF k(2)] lA, of ?P "0x82" "of_nat (n div 256)" "of_nat n"]
      by (simp add: take_update_swap)
    show ?thesis
      using 3 c lb ol by (simp add: e length_field_def room_def off)
  next
    case 4
    have k: "seq + 4 + n \<le> length ?buf" "seq + 4 \<le> length ?buf"
      using ol free lb 4 unfolding n_def [symmetric] off by linarith+
    have e: "endSequence w = (None, w\<lparr>wseq := rest,
        wbuf := (buffer_copy ?buf ?buf (seq + 4) (seq + 3) (seq + 3 + n))
                  [seq := 0x83, seq + 1 := of_nat (n div 65536),
                   seq + 2 := of_nat (n div 256), seq + 3 := of_nat n],
        woffset := seq + 4 + n\<rparr>)"
      using 4 fit' unfolding endSequence_def s list.case Let_def shift_def
      by (simp add: off nat_add_distrib of_int_drop_bit add.commute)
    have c: "committed (snd (endSequence w))
             = ?A @ [0x83, of_nat (n div 65536), of_nat (n div 256), of_nat n] @ ?P"
      unfolding e snd_conv committed_def
      using moved [OF k(1)]
        overwrite_4 [OF lH [OF k(2)] lA, of ?P "0x83" "of_nat (n div 65536)"
          "of_nat (n div 256)" "of_nat n"]
      by (simp add: take_update_swap)
    show ?thesis
      using 4 c lb k by (simp add: e length_field_def room_def)
  qed
  then show "fst (endSequence w) = None"
    and "committed (snd (endSequence w))
         = take seq (committed w) @ length_field (woffset w - (seq + 3))
           @ drop (seq + 3) (committed w)"
    and "wseq (snd (endSequence w)) = rest"
    and "room 0 (snd (endSequence w))"
    unfolding cA cP n_def by simp_all
qed

lemma endSequence_too_long:
  "wseq w = seq # rest \<Longrightarrow> 0xFFFFFF < int (woffset w) - int (seq + 3) \<Longrightarrow>
   fst (endSequence w) = Some InvalidAsn1Error"
  by (simp add: endSequence_def Let_def)

section \<open>The capacity invariant, operation by operation\<close>

lemma writer_okI: "room n w \<Longrightarrow> 1 \<le> wgrowthFactor w \<Longrightarrow> writer_ok w"
  by (simp add: writer_ok_def room_def)

lemma writer_ok_gf: "writer_ok w \<Longrightarrow> 1 \<le> wgrowthFactor w"
  by (simp add: writer_ok_def)

lemma writeInt_ok: "writer_ok w \<Longrightarrow> writer_ok (writeInt i tag w)"
proof -
  assume ok: "writer_ok w"
  let ?bs = "int_bytes i"
  let ?w1 = "ensure (2 + length ?bs) w"
  have r1: "room (Suc (Suc (length ?bs))) ?w1" and g1: "wgrowthFactor ?w1 = wgrowthFactor w"
    using ensure_ok [OF ok, of "2 + length ?bs"] by simp_all
  have r3: "room (length (rev ?bs) + 0) (put (int (length ?bs)) (put tag ?w1))"
    and g3: "wgrowthFactor (put (int (length ?bs)) (put tag ?w1)) = wgrowthFactor w"
    using put_room(1) [OF put_room(1) [OF r1, of tag], of "int (length ?bs)"] g1
    by (simp_all add: put_def)
  have w: "writeInt i tag w = put_all (rev ?bs) (put (int (length ?bs)) (put tag ?w1))"
    by (simp add: writeInt_def Let_def)
  show ?thesis
    unfolding w using put_all_room [OF r3] g3 writer_ok_gf [OF ok]
    by (auto intro: writer_okI)
qed

lemma writeBoolean_ok: "writer_ok w \<Longrightarrow> writer_ok (writeBoolean b tag w)"
proof -
  assume ok: "writer_ok w"
  let ?w1 = "ensure 3 w"
  have r1: "room (length [tag, 0x01, if b then 0xff else 0x00] + 0) ?w1"
    and g1: "wgrowthFactor ?w1 = wgrowthFactor w"
    using ensure_ok [OF ok, of 3] by (simp_all add: numeral_3_eq_3)
  have w: "writeBoolean b tag w = put_all [tag, 0x01, if b then 0xff else 0x00] ?w1"
    by (simp add: writeBoolean_def Let_def)
  show ?thesis
    unfolding w using put_all_room [OF r1] g1 writer_ok_gf [OF ok]
    by (auto intro: writer_okI)
qed

lemma writeLength_ok: "writer_ok w \<Longrightarrow> writer_ok (snd (writeLength len w))"
proof -
  assume ok: "writer_ok w"
  let ?w = "ensure 4 w"
  have r4: "room 4 ?w" and g: "wgrowthFactor ?w = wgrowthFactor w"
    using ensure_ok [OF ok, of 4] by simp_all
  have pa: "writer_ok (put_all vs ?w)" if "length vs \<le> 4" for vs
  proof -
    have "room (length vs + (4 - length vs)) ?w"
      using r4 that by simp
    from put_all_room [OF this] show ?thesis
      using g writer_ok_gf [OF ok] by (auto intro: writer_okI)
  qed
  have e: "snd (writeLength len w) =
     (if len \<le> 0x7f then put_all [len] ?w
      else if len \<le> 0xff then put_all [0x81, len] ?w
      else if len \<le> 0xffff then put_all [0x82, drop_bit 8 len, len] ?w
      else if len \<le> 0xffffff then put_all [0x83, drop_bit 16 len, drop_bit 8 len, len] ?w
      else ?w)"
    by (simp add: writeLength_def Let_def)
  show ?thesis
    unfolding e using pa ensure_writer_ok [OF ok, of 4]
    by (simp del: put_all.simps)
qed

lemma writeLength_ok_eq: "writer_ok w \<Longrightarrow> writeLength len w = (e, w') \<Longrightarrow> writer_ok w'"
  using writeLength_ok [of w len] by simp

lemma bulk_ok:
  assumes "writer_ok w"
  shows "writer_ok ((ensure (length s) w)
           \<lparr>wbuf := buffer_copy s (wbuf (ensure (length s) w)) (woffset (ensure (length s) w))
                      0 (length s),
             woffset := woffset (ensure (length s) w) + length s\<rparr>)"
  using ensure_ok(1,5) [OF assms, of "length s"] writer_ok_gf [OF assms]
  by (simp add: writer_ok_def room_def)

lemma writeString_ok: "writer_ok w \<Longrightarrow> writer_ok (snd (writeString s tag w))"
proof -
  assume ok: "writer_ok w"
  obtain e w1 where w1: "writeLength (int (length s)) (writeByte tag w) = (e, w1)"
    by (cases "writeLength (int (length s)) (writeByte tag w)")
  have ok1: "writer_ok w1"
    using writeLength_ok_eq [OF writeByte_ok(1) [OF ok] w1] .
  show ?thesis
    unfolding writeString_def Let_def w1
    using ok1 bulk_ok [OF ok1, of s] by (cases e) simp_all
qed

lemma writeString_ok_eq: "writer_ok w \<Longrightarrow> writeString s tag w = (e, w') \<Longrightarrow> writer_ok w'"
  using writeString_ok [of w s tag] by simp

lemma writeBuffer_ok: "writer_ok w \<Longrightarrow> writer_ok (snd (writeBuffer buf tag w))"
proof -
  assume ok: "writer_ok w"
  obtain e w1 where w1: "(case tag of
              Some t \<Rightarrow> writeLength (int (length buf)) (writeByte t w)
            | None \<Rightarrow> (None, w)) = (e, w1)"
    by (cases "case tag of
              Some t \<Rightarrow> writeLength (int (length buf)) (writeByte t w)
            | None \<Rightarrow> (None, w)")
  have ok1: "writer_ok w1"
  proof (cases tag)
    case None
    with w1 ok show ?thesis by simp
  next
    case (Some t)
    with w1 have "writeLength (int (length buf)) (writeByte t w) = (e, w1)"
      by simp
    from writeLength_ok_eq [OF writeByte_ok(1) [OF ok] this] show ?thesis .
  qed
  show ?thesis
    unfolding writeBuffer_def Let_def w1
    using ok1 bulk_ok [OF ok1, of buf] by (cases e) simp_all
qed

lemma writeStringArray_ok:
  "writer_ok w \<Longrightarrow> writer_ok (snd (writeStringArray strings tag w))"
proof (induction strings arbitrary: w)
  case Nil
  then show ?case by simp
next
  case (Cons s strings)
  obtain e w1 where w1: "writeString s tag w = (e, w1)"
    by (cases "writeString s tag w")
  have ok1: "writer_ok w1"
    using writeString_ok_eq [OF Cons.prems w1] .
  show ?case
    using ok1 Cons.IH [OF ok1] by (cases e) (simp_all add: w1)
qed

lemma writeOID_ok: "writer_ok w \<Longrightarrow> writer_ok (snd (writeOID s tag w))"
proof (cases "oid_regex s")
  case False
  assume "writer_ok w"
  with False show ?thesis
    by (simp add: writeOID_def)
next
  case True
  assume ok: "writer_ok w"
  define bytes where "bytes =
     (case split_dot s of a # b # _ \<Rightarrow> int (parseInt a * 40 + parseInt b) | _ \<Rightarrow> 0)
     # map int (concat (map (\<lambda>b. encodeOctet (parseInt b)) (drop 2 (split_dot s))))"
  let ?w1 = "writeByte tag (ensure (2 + length bytes) w)"
  obtain e w2 where w2: "writeLength (int (length bytes)) ?w1 = (e, w2)"
    by (cases "writeLength (int (length bytes)) ?w1")
  have ok2: "writer_ok w2"
    using writeLength_ok_eq [OF writeByte_ok(1) [OF ensure_writer_ok [OF ok]] w2] .
  have "writeOID s tag w = (case e of Some e \<Rightarrow> (Some e, w2)
                            | None \<Rightarrow> (None, fold writeByte bytes w2))"
    unfolding writeOID_def Let_def bytes_def [symmetric] w2
    using True by (simp only: not_True_eq_False if_False prod.case)
  then show ?thesis
    using ok2 fold_writeByte_ok [OF ok2, of bytes] by (cases e) simp_all
qed

lemma startSequence_ok: "writer_ok w \<Longrightarrow> writer_ok (startSequence tag w)"
proof -
  assume ok: "writer_ok w"
  let ?w1 = "(writeByte tag w)\<lparr>wseq := woffset (writeByte tag w) # wseq (writeByte tag w)\<rparr>"
  have ok1: "writer_ok ?w1"
    using writeByte_ok(1) [OF ok, of tag] by (simp add: writer_ok_def room_def)
  show ?thesis
    using ensure_ok(1,5) [OF ok1, of 3] writer_ok_gf [OF ok1]
    by (simp add: startSequence_def Let_def writer_ok_def room_def)
qed

lemma shift_ok:
  assumes "room 0 w" and "int (woffset w) + sh \<le> int (wsize w)"
  shows "room 0 (shift start len sh w)"
  using assms by (simp add: shift_def room_def)

lemma room_wbuf_update:
  "room 0 w \<Longrightarrow> length b = length (wbuf w) \<Longrightarrow> room 0 (w\<lparr>wbuf := b\<rparr>)"
  by (simp add: room_def)

lemma endSequence_room:
  assumes "room 0 w" and "woffset w < wsize w"
  shows "room 0 (snd (endSequence w))"
proof (cases "wseq w")
  case Nil
  with assms(1) show ?thesis
    by (simp add: endSequence_def)
next
  case (Cons seq rest)
  let ?w = "w\<lparr>wseq := rest\<rparr>"
  have r: "room 0 ?w" and le: "int (woffset ?w) + 1 \<le> int (wsize ?w)"
    "int (woffset ?w) + (- 1) \<le> int (wsize ?w)" "int (woffset ?w) + (- 2) \<le> int (wsize ?w)"
    using assms by (simp_all add: room_def)
  have s: "room 0 (shift start len sh ?w)" if "sh \<in> {1, - 1, - 2}" for start len sh
    using that le by (auto intro: shift_ok [OF r])
  show ?thesis
    unfolding endSequence_def Cons list.case Let_def
    using r s by (simp add: room_wbuf_update)
qed

lemma wgrowthFactor_endSequence: "wgrowthFactor (snd (endSequence w)) = wgrowthFactor w"
  by (simp add: endSequence_def Let_def shift_def split: list.splits)

lemma endSequence_room_small:
  assumes "room 0 w" and "wseq w = seq # rest" and "int (woffset w) - int (seq + 3) \<le> 0xFFFF"
  shows "room 0 (snd (endSequence w))"
proof -
  let ?w = "w\<lparr>wseq := rest\<rparr>"
  have r: "room 0 ?w" and le:
    "int (woffset ?w) + (- 1) \<le> int (wsize ?w)" "int (woffset ?w) + (- 2) \<le> int (wsize ?w)"
    using assms by (simp_all add: room_def)
  have s: "room 0 (shift start len sh ?w)" if "sh \<in> {- 1, - 2}" for start len sh
    using that le by (auto intro: shift_ok [OF r])
  show ?thesis
    unfolding endSequence_def assms(2) list.case Let_def
    using r s assms(3) by (simp add: room_wbuf_update)
qed

text \<open>
  Every operation keeps the offset within the allocated size, with one exception:
  \<open>endSequence\<close> on a Buffer without a free octet when the payload is longer than
  \<open>0xFFFF\<close> octets.
\<close>

lemma exec_op_ok:
  assumes "writer_ok w"
    and "op = EndSequence \<Longrightarrow>
           woffset w < wsize w
           \<or> (\<exists>seq rest. wseq w = seq # rest \<and> int (woffset w) - int (seq + 3) \<le> 0xFFFF)
           \<or> wseq w = []"
  shows "writer_ok (snd (exec_op op w))"
proof (cases "op = EndSequence")
  case False
  with assms(1) show ?thesis
    by (cases op)
      (simp_all add: writeByte_ok writeInt_ok writeNull_def writeEnumeration_def writeBoolean_ok
        writeString_ok writeBuffer_ok writeStringArray_ok writeOID_ok writeLength_ok
        startSequence_ok)
next
  case True
  have r: "room 0 w"
    using assms(1) by (simp add: writer_ok_def)
  from assms(2) [OF True] have "room 0 (snd (endSequence w))"
  proof (elim disjE exE conjE)
    assume "woffset w < wsize w"
    then show ?thesis by (rule endSequence_room [OF r])
  next
    fix seq rest
    assume "wseq w = seq # rest" "int (woffset w) - int (seq + 3) \<le> 0xFFFF"
    then show ?thesis by (rule endSequence_room_small [OF r])
  next
    assume "wseq w = []"
    with r show ?thesis by (simp add: endSequence_def)
  qed
  then show ?thesis
    using True assms(1) wgrowthFactor_endSequence [of w] by (simp add: writer_ok_def)
qed

section \<open>Closing a sequence on a full Buffer\<close>

lemma ensure_noop: "int n \<le> int (wsize w) - int (woffset w) \<Longrightarrow> ensure n w = w"
  by (simp add: ensure_def)

lemma alloc_split: "alloc (m + n) = alloc m @ alloc n"
  by (simp add: alloc_def replicate_add)

lemma alloc_4: "alloc 4 = [0, 0, 0, 0]"
  by (simp add: alloc_def numeral_eq_Suc)

lemma start_state:
  "startSequence tag (Writer 65540 gf)
   = \<lparr>wbuf = [of_int tag, 0, 0, 0] @ alloc 65536, wsize = 65540, woffset = 4,
      wgrowthFactor = gf, wseq = [1]\<rparr>"
proof -
  have a: "alloc 65540 = alloc 4 @ alloc 65536"
    using alloc_split [of 4 65536] by simp
  show ?thesis
    by (simp add: startSequence_def writeByte_def ensure_noop Writer_def put_def Let_def a alloc_4)
qed

lemma payload_state:
  assumes "length payload = 65536"
  shows "writeBuffer payload None (startSequence tag (Writer 65540 gf))
   = (None, \<lparr>wbuf = [of_int tag, 0, 0, 0] @ payload, wsize = 65540, woffset = 65540,
      wgrowthFactor = gf, wseq = [1]\<rparr>)"
  using assms
  by (simp add: start_state writeBuffer_def ensure_noop Let_def buffer_copy_def)

lemma end_state:
  assumes "length payload = 65536"
  shows "endSequence \<lparr>wbuf = [of_int tag, 0, 0, 0] @ payload, wsize = 65540, woffset = 65540,
      wgrowthFactor = gf, wseq = [1]\<rparr>
   = (None, \<lparr>wbuf = [of_int tag, 0x83, 1, 0, 0] @ take 65535 payload, wsize = 65540,
        woffset = 65541, wgrowthFactor = gf, wseq = []\<rparr>)"
proof -
  obtain p ps where p: "payload = p # ps"
    using assms by (cases payload) auto
  show ?thesis
    using assms unfolding p
    by (simp add: endSequence_def Let_def shift_def buffer_copy_def drop_bit_eq_div)
qed

lemma full_buffer_run:
  assumes "length payload = 65536"
  shows "run [StartSequence tag, WriteBuffer payload None, EndSequence] (Writer 65540 gf)
   = \<lparr>wbuf = [of_int tag, 0x83, 1, 0, 0] @ take 65535 payload, wsize = 65540,
        woffset = 65541, wgrowthFactor = gf, wseq = []\<rparr>"
proof -
  let ?W = "Writer 65540 gf"
  have "run [StartSequence tag, WriteBuffer payload None, EndSequence] ?W
        = snd (endSequence (snd (writeBuffer payload None (startSequence tag ?W))))"
    by simp
  also have "\<dots> = \<lparr>wbuf = [of_int tag, 0x83, 1, 0, 0] @ take 65535 payload, wsize = 65540,
        woffset = 65541, wgrowthFactor = gf, wseq = []\<rparr>"
    by (simp only: payload_state [OF assms] end_state [OF assms] snd_conv)
  finally show ?thesis .
qed

text \<open>
  C4. After every operation the offset of the Writer is at most the allocated size.
  \<open>endSequence\<close> breaks this: on a Writer of size 65540, after \<open>startSequence\<close> and a
  payload of 65536 octets the Buffer is full (offset 65540); \<open>endSequence\<close> needs a
  fourth length octet, moves the payload up by one without growing the Buffer, and
  leaves the offset at 65541, above the size 65540. Everywhere else the invariant is
  kept (lemma \<open>exec_op_ok\<close>).
\<close>

theorem endSequence_offset_above_size:
  "woffset (run [StartSequence 0x30, WriteBuffer (replicate 65536 1) None, EndSequence]
             (Writer 65540 8)) = 65541
   \<and> wsize (run [StartSequence 0x30, WriteBuffer (replicate 65536 1) None, EndSequence]
             (Writer 65540 8)) = 65540
   \<and> woffset (run [StartSequence 0x30, WriteBuffer (replicate 65536 1) None] (Writer 65540 8))
       = 65540"
proof -
  have l: "length (replicate 65536 (1::byte)) = 65536"
    by simp
  have "run [StartSequence 0x30, WriteBuffer (replicate 65536 1) None] (Writer 65540 8)
        = snd (writeBuffer (replicate 65536 1) None (startSequence 0x30 (Writer 65540 8)))"
    by simp
  then show ?thesis
    unfolding full_buffer_run [OF l] payload_state [OF l] by simp
qed

text \<open>
  C6. \<open>endSequence\<close> rewrites the placeholder to the minimal length field and keeps the
  payload written since \<open>startSequence\<close>; with room in the Buffer it does (lemma
  \<open>endSequence_layout\<close>). On the full Buffer above it does not: the payload is 65535
  octets \<open>00\<close> and a last octet \<open>AA\<close>; after \<open>endSequence\<close> the \<open>buffer\<close> accessor
  returns the tag, the length field \<open>83 01 00 00\<close> for 65536 octets, and only the 65535
  octets \<open>00\<close>: the last payload octet is lost.
\<close>

theorem endSequence_loses_last_octet:
  "buffer (run [StartSequence 0x30, WriteBuffer (replicate 65535 0 @ [0xAA]) None, EndSequence]
            (Writer 65540 8))
   = Inr ([0x30, 0x83, 1, 0, 0] @ replicate 65535 0)"
proof -
  have l: "length (replicate 65535 (0::byte) @ [0xAA]) = 65536"
    by simp
  show ?thesis
    unfolding full_buffer_run [OF l] by (simp add: buffer_def)
qed

section \<open>Reads on an input that stops too early\<close>

lemma byte_at_take: "i < n \<Longrightarrow> byte_at (take n buf) i = byte_at buf i"
  by (simp add: byte_at_def)

lemma length_octets_take:
  "off + k \<le> n \<Longrightarrow> length_octets (take n buf) off k = length_octets buf off k"
  unfolding length_octets_def by (rule foldl_cong) (simp_all add: byte_at_take)

lemma readLength_first_octets:
  assumes n: "n \<le> rsize r" and rl: "readLength (Some off) r = (Value off', r1)"
  shows "n < off' \<Longrightarrow> readLength (Some off) (first_octets n r) = (Null, first_octets n r)"
    and "off' \<le> n \<Longrightarrow> readLength (Some off) (first_octets n r) = (Value off', first_octets n r1)"
    and "off < off'"
proof -
  show lt: "off < off'"
    using rl by (auto simp: readLength_def Let_def split: if_splits)
  show "readLength (Some off) (first_octets n r) = (Null, first_octets n r)" if "n < off'"
  proof (cases "off < n")
    case False
    then show ?thesis
      using n by (simp add: readLength_def first_octets_def min_def)
  next
    case True
    then show ?thesis
      using n rl that
      by (auto simp: readLength_def first_octets_def Let_def min_def byte_at_take split: if_splits)
  qed
  show "readLength (Some off) (first_octets n r) = (Value off', first_octets n r1)" if "off' \<le> n"
  proof -
    have o: "off < n"
      using lt that by simp
    show ?thesis
      using n rl that o
      by (auto simp: readLength_def first_octets_def Let_def min_def byte_at_take length_octets_take
          split: if_splits)
  qed
qed

lemma first_octets_fields [simp]:
  "roffset (first_octets n r) = roffset r" "rlen (first_octets n r) = rlen r"
  "rsize (first_octets n r) = min n (rsize r)" "rbuf (first_octets n r) = take n (rbuf r)"
  by (simp_all add: first_octets_def)

lemma peek_first_octets:
  "n \<le> roffset r \<Longrightarrow> peek (first_octets n r) = (Null, first_octets n r)"
  "peek r = (Value b, r1) \<Longrightarrow> roffset r < n \<Longrightarrow> peek (first_octets n r) = (Value b, first_octets n r)"
  by (auto simp: peek_def readByte_def Let_def byte_at_take min_def split: if_splits)

lemma readLength_fields:
  assumes "readLength a r = (x, r1)"
  shows "rsize r1 = rsize r" "rbuf r1 = rbuf r" "roffset r1 = roffset r"
  using readLength_same [OF assms] by (simp_all add: same_input_def)

lemma readTag_Value:
  assumes "readTag tag r = (Value v, r')"
  obtains b off' r1 where "peek r = (Value b, r)" and "tag = None \<or> tag = Some b"
    and "readLength (Some (roffset r + 1)) r = (Value off', r1)"
    and "rlen r1 \<noteq> 0" and "int (rlen r1) \<le> int (rsize r) - int off'"
    and "roffset r' = off' + rlen r1"
proof -
  obtain x r0 where p: "peek r = (x, r0)"
    by (cases "peek r")
  then have r0: "r0 = r"
    by (rule peek_state)
  obtain y r1 where l: "readLength (Some (Suc (roffset r))) r = (y, r1)"
    by (cases "readLength (Some (Suc (roffset r))) r")
  note f = readLength_fields [OF l]
  show ?thesis
    using assms that [of _ _ r1] f
    unfolding readTag_def p r0 prod.case
    by (cases x; cases y) (auto simp: l Let_def split: if_splits)
qed

lemma readTag_cut:
  assumes "n \<le> rsize r" and "readTag tag r = (Value v, r')"
    and "roffset r \<le> n" and "n < roffset r'"
  shows "fst (readTag tag (first_octets n r)) = Null"
proof -
  from assms(2) obtain b off' r1 where p: "peek r = (Value b, r)"
    and t: "tag = None \<or> tag = Some b"
    and l: "readLength (Some (roffset r + 1)) r = (Value off', r1)"
    and z: "rlen r1 \<noteq> 0" and o: "roffset r' = off' + rlen r1"
    by (rule readTag_Value)
  show ?thesis
  proof (cases "roffset r < n")
    case False
    then show ?thesis
      using assms(3) by (simp add: readTag_def peek_first_octets(1))
  next
    case True
    note pk = peek_first_octets(2) [OF p True]
    show ?thesis
    proof (cases "n < off'")
      case True
      show ?thesis
        using t readLength_first_octets(1) [OF assms(1) l True]
        by (auto simp: readTag_def pk)
    next
      case False
      then have "off' \<le> n" by simp
      from readLength_first_octets(2) [OF assms(1) l this] show ?thesis
        using t z o assms(1,4) False
        by (auto simp: readTag_def pk)
    qed
  qed
qed

lemma readSequence_Value:
  assumes "readSequence tag r = (Value v, r')"
  obtains b off' r1 where "peek r = (Value b, r)" and "tag = None \<or> tag = Some b"
    and "readLength (Some (roffset r + 1)) r = (Value off', r1)"
    and "roffset r' = off'"
proof -
  obtain x r0 where p: "peek r = (x, r0)"
    by (cases "peek r")
  then have r0: "r0 = r"
    by (rule peek_state)
  obtain y r1 where l: "readLength (Some (Suc (roffset r))) r = (y, r1)"
    by (cases "readLength (Some (Suc (roffset r))) r")
  show ?thesis
    using assms that [of _ _ r1]
    unfolding readSequence_def p r0 prod.case
    by (cases x; cases y) (auto simp: l Let_def split: if_splits)
qed

lemma readSequence_cut:
  assumes "n \<le> rsize r" and "readSequence tag r = (Value v, r')"
    and "roffset r \<le> n" and "n < roffset r'"
  shows "fst (readSequence tag (first_octets n r)) = Null"
proof -
  from assms(2) obtain b off' r1 where p: "peek r = (Value b, r)"
    and t: "tag = None \<or> tag = Some b"
    and l: "readLength (Some (roffset r + 1)) r = (Value off', r1)"
    and o: "roffset r' = off'"
    by (rule readSequence_Value)
  show ?thesis
  proof (cases "roffset r < n")
    case False
    then show ?thesis
      using assms(3) by (simp add: readSequence_def peek_first_octets(1))
  next
    case True
    note pk = peek_first_octets(2) [OF p True]
    have "n < off'"
      using assms(4) o by simp
    from readLength_first_octets(1) [OF assms(1) l this] show ?thesis
      using t by (auto simp: readSequence_def pk)
  qed
qed

lemma readBuffer_Value:
  assumes "readBuffer tag r = (Value v, r')"
  obtains off' r1 where "peek r = (Value tag, r)"
    and "readLength (Some (roffset r + 1)) r = (Value off', r1)"
    and "roffset r' = off' + rlen r1"
proof -
  obtain x r0 where p: "peek r = (x, r0)"
    by (cases "peek r")
  then have r0: "r0 = r"
    by (rule peek_state)
  obtain y r1 where l: "readLength (Some (Suc (roffset r))) r = (y, r1)"
    by (cases "readLength (Some (Suc (roffset r))) r")
  show ?thesis
    using assms that [of _ r1]
    unfolding readBuffer_def p r0 prod.case
    by (cases x; cases y) (auto simp: l Let_def split: if_splits)
qed

lemma readBuffer_cut:
  assumes "n \<le> rsize r" and "readBuffer tag r = (Value v, r')"
    and "roffset r \<le> n" and "n < roffset r'"
  shows "readBuffer tag (first_octets n r) = (Null, snd (readBuffer tag (first_octets n r)))"
proof -
  from assms(2) obtain off' r1 where p: "peek r = (Value tag, r)"
    and l: "readLength (Some (roffset r + 1)) r = (Value off', r1)"
    and o: "roffset r' = off' + rlen r1"
    by (rule readBuffer_Value)
  show ?thesis
  proof (cases "roffset r < n")
    case False
    then show ?thesis
      using assms(3) by (simp add: readBuffer_def peek_first_octets(1))
  next
    case True
    note pk = peek_first_octets(2) [OF p True]
    show ?thesis
    proof (cases "n < off'")
      case True
      show ?thesis
        using readLength_first_octets(1) [OF assms(1) l True]
        by (auto simp: readBuffer_def pk)
    next
      case False
      then have "off' \<le> n" by simp
      from readLength_first_octets(2) [OF assms(1) l this] show ?thesis
        using o assms(1,4) False
        by (auto simp: readBuffer_def pk)
    qed
  qed
qed

lemma readBitString_Value:
  assumes "readBitString tag r = (Value v, r')"
  obtains off' r1 where "peek r = (Value tag, r)"
    and "readLength (Some (roffset r + 1)) r = (Value off', r1)"
    and "roffset r' = off' + rlen r1"
proof -
  obtain x r0 where p: "peek r = (x, r0)"
    by (cases "peek r")
  then have r0: "r0 = r"
    by (rule peek_state)
  obtain y r1 where l: "readLength (Some (Suc (roffset r))) r = (y, r1)"
    by (cases "readLength (Some (Suc (roffset r))) r")
  show ?thesis
    using assms that [of _ r1]
    unfolding readBitString_def p r0 prod.case
    by (cases x; cases y) (auto simp: l Let_def split: if_splits)
qed

lemma readBitString_cut:
  assumes "n \<le> rsize r" and "readBitString tag r = (Value v, r')"
    and "roffset r \<le> n" and "n < roffset r'"
  shows "fst (readBitString tag (first_octets n r)) = Null"
proof -
  from assms(2) obtain off' r1 where p: "peek r = (Value tag, r)"
    and l: "readLength (Some (roffset r + 1)) r = (Value off', r1)"
    and o: "roffset r' = off' + rlen r1"
    by (rule readBitString_Value)
  show ?thesis
  proof (cases "roffset r < n")
    case False
    then show ?thesis
      using assms(3) by (simp add: readBitString_def peek_first_octets(1))
  next
    case True
    note pk = peek_first_octets(2) [OF p True]
    show ?thesis
    proof (cases "n < off'")
      case True
      show ?thesis
        using readLength_first_octets(1) [OF assms(1) l True]
        by (auto simp: readBitString_def pk)
    next
      case False
      then have "off' \<le> n" by simp
      from readLength_first_octets(2) [OF assms(1) l this] show ?thesis
        using o assms(1,4) False
        by (auto simp: readBitString_def pk)
    qed
  qed
qed

lemma readString_cut:
  assumes "n \<le> rsize r" and "readString ts tag raw r = (Value v, r')"
    and "roffset r \<le> n" and "n < roffset r'"
  shows "readString ts tag raw (first_octets n r)
         = (Null, snd (readString ts tag raw (first_octets n r)))"
proof -
  let ?t = "case tag of None \<Rightarrow> ASN1_OctetString
            | Some t \<Rightarrow> if t = 0 then ASN1_OctetString else t"
  obtain x r0 where b: "readBuffer ?t r = (x, r0)"
    by (cases "readBuffer ?t r")
  with assms(2) obtain buf where "readBuffer ?t r = (Value buf, r')"
    unfolding readString_def by (cases x) (auto split: if_splits)
  from readBuffer_cut [OF assms(1) this assms(3,4)]
  obtain r2 where tb: "readBuffer ?t (first_octets n r) = (Null, r2)" ..
  show ?thesis
    unfolding readString_def tb by simp
qed

lemma readOID_cut:
  assumes "n \<le> rsize r" and "readOID tag r = (Value v, r')"
    and "roffset r \<le> n" and "n < roffset r'"
  shows "fst (readOID tag (first_octets n r)) = Null"
proof -
  obtain x r0 where b: "readString (\<lambda>buf. buf) (Some tag) True r = (x, r0)"
    by (cases "readString (\<lambda>buf. buf) (Some tag) True r")
  with assms(2) obtain sv where "readString (\<lambda>buf. buf) (Some tag) True r = (Value sv, r')"
    unfolding readOID_def by (cases x) (auto simp: Let_def)
  from readString_cut [OF assms(1) this assms(3,4)]
  obtain r2 where ts: "readString (\<lambda>buf. buf) (Some tag) True (first_octets n r) = (Null, r2)" ..
  show ?thesis
    unfolding readOID_def ts by simp
qed

lemma readByte_cut:
  assumes "readByte p r = (Value v, r')" and "roffset r \<le> n" and "n < roffset r'"
  shows "fst (readByte p (first_octets n r)) = Null"
  using assms by (auto simp: readByte_def Let_def split: if_splits)

lemma apfst_map_Value:
  "apfst (map_result f) p = (Value v, r') \<Longrightarrow> \<exists>u. p = (Value u, r')"
  by (cases p; cases "fst p") auto

text \<open>
  Every read operation but \<open>readBoolean\<close> returns \<open>null\<close> when the input stops inside
  the octets the operation consumes on the whole input: if the operation returns a value
  on the input of \<open>r\<close> and moves the offset past \<open>n\<close>, then on the first \<open>n\<close> octets alone
  it returns \<open>null\<close>.
\<close>

lemma exec_read_first_octets:
  assumes "n \<le> rsize r" and "exec_read toString op r = (Value v, r')"
    and "roffset r \<le> n" and "n < roffset r'" and "\<forall>tag. op \<noteq> ReadBoolean tag"
  shows "fst (exec_read toString op (first_octets n r)) = Null"
proof (cases op)
  case (ReadByte p)
  with assms(2) obtain u where "readByte p r = (Value u, r')"
    by (auto dest: apfst_map_Value)
  from readByte_cut [OF this assms(3,4)] show ?thesis
    by (simp add: ReadByte)
next
  case Peek
  with assms(2) obtain u where "peek r = (Value u, r')"
    by (auto dest: apfst_map_Value)
  then have "r' = r" by (rule peek_state)
  with assms(3,4) show ?thesis by simp
next
  case (ReadLength a)
  with assms(2) obtain u where "readLength a r = (Value u, r')"
    by (auto dest: apfst_map_Value)
  from readLength_fields(3) [OF this] assms(3,4) show ?thesis by simp
next
  case (ReadSequence tag)
  with assms(2) obtain u where "readSequence tag r = (Value u, r')"
    by (auto dest: apfst_map_Value)
  from readSequence_cut [OF assms(1) this assms(3,4)] show ?thesis
    by (simp add: ReadSequence)
next
  case (ReadInt tag)
  with assms(2) obtain u where "readTag tag r = (Value u, r')"
    by (auto simp: readInt_def dest: apfst_map_Value)
  from readTag_cut [OF assms(1) this assms(3,4)] show ?thesis
    by (simp add: ReadInt readInt_def)
next
  case (ReadBoolean tag)
  with assms(5) show ?thesis by simp
next
  case (ReadEnumeration tag)
  with assms(2) obtain u where "readTag (Some tag) r = (Value u, r')"
    by (auto simp: readEnumeration_def dest: apfst_map_Value)
  from readTag_cut [OF assms(1) this assms(3,4)] show ?thesis
    by (simp add: ReadEnumeration readEnumeration_def)
next
  case (ReadBuffer tag)
  with assms(2) obtain u where "readBuffer tag r = (Value u, r')"
    by (auto dest: apfst_map_Value)
  from readBuffer_cut [OF assms(1) this assms(3,4)]
  have "fst (readBuffer tag (first_octets n r)) = Null"
    by (metis fst_conv)
  then show ?thesis
    by (simp add: ReadBuffer)
next
  case (ReadString tag raw)
  with assms(2) obtain u where "readString toString tag raw r = (Value u, r')"
    by (auto dest: apfst_map_Value)
  from readString_cut [OF assms(1) this assms(3,4)]
  have "fst (readString toString tag raw (first_octets n r)) = Null"
    by (metis fst_conv)
  then show ?thesis
    by (simp add: ReadString)
next
  case (ReadOID tag)
  with assms(2) obtain u where "readOID tag r = (Value u, r')"
    by (auto dest: apfst_map_Value)
  from readOID_cut [OF assms(1) this assms(3,4)] show ?thesis
    by (simp add: ReadOID)
next
  case (ReadBitString tag)
  with assms(2) obtain u where "readBitString tag r = (Value u, r')"
    by (auto dest: apfst_map_Value)
  from readBitString_cut [OF assms(1) this assms(3,4)] show ?thesis
    by (simp add: ReadBitString)
qed

section \<open>Reads that find no data\<close>

text \<open>
  C2. A read that would have to go past the end of the input returns the no-data value
  \<open>null\<close>. \<open>readBoolean\<close> does not: on an empty input, and on an input that stops after
  the length octet, it returns the ordinary value \<open>true\<close>, where \<open>readInt\<close> and
  \<open>readEnumeration\<close> on the same inputs return \<open>null\<close>. The other operations do
  return \<open>null\<close> (lemma \<open>exec_read_first_octets\<close>).
\<close>

theorem readBoolean_out_of_data:
  "readBoolean 1 (Reader []) = (Value True, Reader [])
   \<and> fst (readBoolean 1 (Reader [1, 1])) = Value True
   \<and> fst (readInt (Some 1) (Reader [1, 1])) = Null
   \<and> fst (readEnumeration 1 (Reader [1, 1])) = Null"
  by code_simp

section \<open>Bit strings with content below \<open>2^53\<close>\<close>

lemma radix2_small: "n < 2 \<Longrightarrow> radix_string 2 n = [digit_char n]"
  by (subst radix_string.simps) simp

lemma radix2_big:
  "\<not> n < 2 \<Longrightarrow> radix_string 2 n = radix_string 2 (n div 2) @ [digit_char (n mod 2)]"
  by (subst radix_string.simps) simp

lemma binary_0: "binary 0 k = replicate k CHR ''0''"
  by (induction k) (simp_all add: digit_char_def replicate_append_same)

lemma length_binary [simp]: "length (binary n k) = k"
  by (induction k arbitrary: n) simp_all

lemma radix2_binary:
  "n < 2 ^ Suc k \<Longrightarrow>
   length (radix_string 2 n) \<le> Suc k
   \<and> padStart (radix_string 2 n) (Suc k) CHR ''0'' = binary n (Suc k)"
proof (induction k arbitrary: n)
  case 0
  then show ?case
    by (simp add: radix2_small padStart_def)
next
  case (Suc k)
  show ?case
  proof (cases "n < 2")
    case True
    then show ?thesis
      by (simp add: radix2_small padStart_def binary_0 replicate_append_same digit_char_def)
  next
    case False
    have "n div 2 < 2 ^ Suc k"
      using Suc.prems by simp
    from Suc.IH [OF this] show ?thesis
      using False by (simp add: radix2_big padStart_def Suc_diff_le)
  qed
qed

lemma binary_add: "binary n (k + j) = binary (n div 2 ^ j) k @ binary (n mod 2 ^ j) j"
proof (induction j arbitrary: n)
  case 0
  then show ?case by simp
next
  case (Suc j)
  have a: "n div 2 div 2 ^ j = n div 2 ^ Suc j"
    by (simp add: div_mult2_eq)
  have b: "n mod 2 ^ Suc j div 2 = n div 2 mod 2 ^ j" "n mod 2 ^ Suc j mod 2 = n mod 2"
    using take_bit_Suc [of j n] by (simp_all add: take_bit_eq_mod)
  show ?case
    using Suc [of "n div 2"] by (simp add: a b del: power_Suc)
qed

lemma be_nat_snoc: "be_nat (xs @ [b]) = be_nat xs * 256 + unat b"
  by (simp add: be_nat_def)

lemma unat_byte_less: "unat (b::byte) < 256"
  using unsigned_less [of b, where ?'a = nat] by simp

lemma binary_be_nat: "binary (be_nat octets) (8 * length octets) = unpack_bits octets"
proof (induction octets rule: rev_induct)
  case Nil
  then show ?case by (simp add: be_nat_def unpack_bits_def)
next
  case (snoc b xs)
  have "binary (be_nat (xs @ [b])) (8 * length (xs @ [b]))
        = binary (be_nat xs * 256 + unat b) (8 * length xs + 8)"
    by (simp add: be_nat_snoc add.commute)
  also have "\<dots> = binary ((be_nat xs * 256 + unat b) div 2 ^ 8) (8 * length xs)
          @ binary ((be_nat xs * 256 + unat b) mod 2 ^ 8) 8"
    by (rule binary_add)
  also have "(be_nat xs * 256 + unat b) div 2 ^ 8 = be_nat xs"
    using unat_byte_less [of b] by simp
  also have "(be_nat xs * 256 + unat b) mod 2 ^ 8 = unat b"
    using unat_byte_less [of b] by simp
  also have "binary (be_nat xs) (8 * length xs) @ binary (unat b) 8 = unpack_bits (xs @ [b])"
    unfolding snoc by (simp add: unpack_bits_def)
  finally show ?case .
qed

lemma be_nat_less: "be_nat octets < 2 ^ (8 * length octets)"
proof (induction octets rule: rev_induct)
  case Nil
  then show ?case by (simp add: be_nat_def)
next
  case (snoc b xs)
  have "be_nat xs * 256 + unat b < (be_nat xs + 1) * 256"
    using unat_byte_less [of b] by simp
  also have "\<dots> \<le> 2 ^ (8 * length xs) * 256"
    using snoc by (intro mult_le_mono1) simp
  finally show ?case
    by (simp add: be_nat_snoc power_add)
qed

lemma to_double_exact: "n < 2 ^ 53 \<Longrightarrow> to_double n = Finite n"
  using radix2_binary [of n 52] by (simp add: to_double_def)

lemma bit_text:
  assumes "octets \<noteq> []" and "be_nat octets < 2 ^ 53"
  shows "padStart (toString2 (parseInt_hex octets)) (length octets * 8) CHR ''0''
         = unpack_bits octets"
proof -
  obtain k where k: "8 * length octets = Suc k"
    using assms(1) by (cases octets) simp_all
  have "padStart (radix_string 2 (be_nat octets)) (8 * length octets) CHR ''0''
        = binary (be_nat octets) (8 * length octets)"
    using radix2_binary [of "be_nat octets" k] be_nat_less [of octets] unfolding k by blast
  then have "padStart (radix_string 2 (be_nat octets)) (8 * length octets) CHR ''0''
        = unpack_bits octets"
    by (simp only: binary_be_nat)
  moreover have "toString2 (parseInt_hex octets) = radix_string 2 (be_nat octets)"
    using assms by (simp add: parseInt_hex_def be_nat_def [symmetric] to_double_exact toString2_def)
  ultimately show ?thesis
    by (simp only: mult.commute [of "length octets" 8])
qed

text \<open>
  For a bit string with at least one content octet and content below \<open>2^53\<close> (at most
  six content octets, for instance) \<open>readBitString\<close> returns the digits of the content
  octets, most significant bit first, without the last \<open>ignoredBits\<close> digits.
\<close>

lemma readBitString_content:
  assumes "content \<noteq> []" and "length content \<le> 126" and "be_nat content < 2 ^ 53"
  shows "fst (readBitString (uint t)
                (Reader (t # of_nat (Suc (length content)) # ignored # content)))
         = Value (take (8 * length content - unat ignored) (unpack_bits content))"
proof -
  let ?L = "Suc (length content)"
  let ?buf = "t # of_nat ?L # ignored # content"
  let ?r = "Reader ?buf"
  have u: "unat (of_nat ?L :: byte) = ?L"
    using assms(2) by (simp add: unat_of_nat del: of_nat_Suc)
  have hi: "\<not> (?L AND 0x80 = 0x80)"
    using assms(2) nat_and_128 [of ?L] by simp
  have p: "peek ?r = (Value (uint t), ?r)"
    by (simp add: peek_def readByte_def Reader_def byte_at_def)
  have l: "readLength (Some (roffset ?r + 1)) ?r = (Value 2, ?r\<lparr>rlen := ?L\<rparr>)"
    using u hi by (simp add: readLength_def Reader_def Let_def byte_at_def del: of_nat_Suc)
  have s: "subarray ?buf 3 (3 + ?L - 1) = content"
    by (simp add: subarray_def)
  have lt: "length (unpack_bits content) = 8 * length content"
    using length_binary [of "be_nat content" "8 * length content"]
    by (simp only: binary_be_nat)
  show ?thesis
    unfolding readBitString_def p l prod.case result.case Let_def
    using bit_text [OF assms(1,3)] s lt
    by (simp add: Reader_def byte_at_def mult.commute)
qed

section \<open>Bit strings without content octets\<close>

text \<open>
  C9. A bit string of declared length 1 has no content octets, only the count of ignored
  bits; its digits are the empty text. \<open>readBitString\<close> returns the text \<open>NaN\<close> for the
  value with the octets \<open>03 01 00\<close>. For the payload \<open>04 F0\<close> it returns \<open>1111\<close>, and
  for content below \<open>2^53\<close> it unpacks the octets as stated (lemma
  \<open>readBitString_content\<close>).
\<close>

theorem readBitString_no_content:
  "fst (readBitString 3 (Reader [3, 1, 0])) = Value ''NaN''
   \<and> fst (readBitString 3 (Reader [3, 2, 4, 0xF0])) = Value ''1111''"
  by code_simp

end
